theory Spec2Isabelle
  imports Complex_Main
begin

section \<open>Arrays, indices and errors\<close>

text \<open>
  The scripts work on two-dimensional numpy arrays of floats. An array is modelled as the
  list of its rows, a temperature as a real number (rounding is not modelled), and the
  empty list stands for the array of shape (0, 0). Every exception the modelled code can
  raise is a value of \<open>py_error\<close>.
\<close>

type_synonym grid = "real list list"

datatype py_error = IndexError | ValueError | ZeroDivisionError

definition nrows :: "grid \<Rightarrow> nat" where
  "nrows u = length u"

definition ncols :: "grid \<Rightarrow> nat" where
  "ncols u = (case u of [] \<Rightarrow> 0 | r # _ \<Rightarrow> length r)"

text \<open>\<open>shaped NX NY u\<close>: \<open>u\<close> is a rectangular array of shape (NX, NY).\<close>

definition shaped :: "nat \<Rightarrow> nat \<Rightarrow> grid \<Rightarrow> bool" where
  "shaped NX NY u = (length u = NX \<and> list_all (\<lambda>r. length r = NY) u)"

text \<open>Sequencing of fallible statements: the first exception ends the computation.\<close>

definition and_then :: "py_error + 'a \<Rightarrow> ('a \<Rightarrow> py_error + 'b) \<Rightarrow> py_error + 'b" where
  "and_then m f = (case m of Inl e \<Rightarrow> Inl e | Inr x \<Rightarrow> f x)"

text \<open>
  Python's integer index on an axis of length \<open>n\<close>: a negative index counts from the
  end, and an index outside the axis raises IndexError.
\<close>

definition py_index :: "nat \<Rightarrow> int \<Rightarrow> py_error + nat" where
  "py_index n i =
     (let j = (if i < 0 then int n + i else i)
      in if 0 \<le> j \<and> j < int n then Inr (nat j) else Inl IndexError)"

text \<open>
  Python's slice bound on an axis of length \<open>n\<close>: negative bounds count from the end and
  every bound is clipped to the axis, so a slice never raises.
\<close>

definition py_bound :: "nat \<Rightarrow> int \<Rightarrow> nat" where
  "py_bound n a = (if a < 0 then nat (max 0 (int n + a)) else min (nat a) n)"

text \<open>\<open>a[i, :] = v\<close>, \<open>a[:, j] = v\<close> and \<open>a[lo:hi, :] = v\<close> with a scalar \<open>v\<close>.\<close>

definition set_row :: "int \<Rightarrow> real \<Rightarrow> grid \<Rightarrow> py_error + grid" where
  "set_row i v a =
     (case py_index (nrows a) i of
        Inl e \<Rightarrow> Inl e
      | Inr k \<Rightarrow> Inr (a[k := map (\<lambda>_. v) (a ! k)]))"

definition set_col :: "int \<Rightarrow> real \<Rightarrow> grid \<Rightarrow> py_error + grid" where
  "set_col j v a =
     (case py_index (ncols a) j of
        Inl e \<Rightarrow> Inl e
      | Inr k \<Rightarrow> Inr (map (\<lambda>r. r[k := v]) a))"

definition set_rows :: "int \<Rightarrow> int option \<Rightarrow> real \<Rightarrow> grid \<Rightarrow> grid" where
  "set_rows lo hi v a =
     (let l = py_bound (nrows a) lo;
          h = (case hi of None \<Rightarrow> nrows a | Some b \<Rightarrow> py_bound (nrows a) b)
      in map (\<lambda>k. if l \<le> k \<and> k < h then map (\<lambda>_. v) (a ! k) else a ! k) [0..<nrows a])"

text \<open>The slices \<open>x[1:-1]\<close>, \<open>x[2:]\<close> and \<open>x[:-2]\<close> of one axis.\<close>

definition inner :: "'a list \<Rightarrow> 'a list" where
  "inner xs = butlast (tl xs)"

definition from2 :: "'a list \<Rightarrow> 'a list" where
  "from2 xs = drop 2 xs"

definition upto2 :: "'a list \<Rightarrow> 'a list" where
  "upto2 xs = take (length xs - 2) xs"

text \<open>Elementwise arithmetic on arrays of one shape, and scaling by a scalar.\<close>

definition madd :: "grid \<Rightarrow> grid \<Rightarrow> grid" where
  "madd a b = map2 (map2 (+)) a b"

definition msub :: "grid \<Rightarrow> grid \<Rightarrow> grid" where
  "msub a b = map2 (map2 (-)) a b"

definition scale :: "real \<Rightarrow> grid \<Rightarrow> grid" where
  "scale c a = map (map ((*) c)) a"

text \<open>
  \<open>new[1:-1, 1:-1] = vals\<close>: the first and last row and column of \<open>new\<close> stay, the rest
  is replaced. On an axis shorter than two the slice is empty and nothing is assigned.
\<close>

definition put_inner :: "'a list \<Rightarrow> 'a list \<Rightarrow> 'a list" where
  "put_inner xs mid = (if length xs < 2 then xs else hd xs # mid @ [last xs])"

definition assign_interior :: "grid \<Rightarrow> grid \<Rightarrow> grid" where
  "assign_interior new vals = put_inner new (map2 put_inner (inner new) vals)"

section \<open>The explicit diffusion step\<close>

text \<open>
  The right-hand side of the interior update, as both \<open>step_heat\<close> functions write it:
  \<open>u[1:-1,1:-1] + dt * (u[2:,1:-1] + u[:-2,1:-1] + u[1:-1,2:] + u[1:-1,:-2] - 4*u[1:-1,1:-1])\<close>.
\<close>

definition interior_values :: "real \<Rightarrow> grid \<Rightarrow> grid" where
  "interior_values dt u =
     madd (map inner (inner u))
       (scale dt
          (msub
             (madd
                (madd
                   (madd (map inner (from2 u)) (map inner (upto2 u)))
                   (map from2 (inner u)))
                (map upto2 (inner u)))
             (scale 4 (map inner (inner u)))))"

text \<open>
  \<open>step_heat\<close> of animate_heat.py; the module constants \<open>dt\<close>, \<open>hot_T\<close> and \<open>cold_T\<close>
  are parameters. The boundary rows and columns are written in the order top, bottom,
  left, right.
\<close>

definition reapply_boundaries :: "real \<Rightarrow> real \<Rightarrow> grid \<Rightarrow> py_error + grid" where
  "reapply_boundaries hot_T cold_T new =
     and_then (set_row 0 hot_T new) (\<lambda>n1.
     and_then (set_row (- 1) hot_T n1) (\<lambda>n2.
     and_then (set_col 0 cold_T n2) (\<lambda>n3.
     set_col (- 1) cold_T n3)))"

definition step_heat :: "real \<Rightarrow> real \<Rightarrow> real \<Rightarrow> grid \<Rightarrow> py_error + grid" where
  "step_heat dt hot_T cold_T u =
     reapply_boundaries hot_T cold_T (assign_interior u (interior_values dt u))"

text \<open>
  \<open>step_heat\<close> of heat_pro_visualization.py, with the thick bands; \<open>top_band\<close> and
  \<open>bottom_band\<close> are module constants too (30 in the script).
\<close>

definition reapply_bands :: "real \<Rightarrow> real \<Rightarrow> int \<Rightarrow> int \<Rightarrow> grid \<Rightarrow> py_error + grid" where
  "reapply_bands hot_T cold_T top_band bottom_band new =
     (let n1 = set_rows 0 (Some top_band) hot_T new;
          n2 = set_rows (- bottom_band) None hot_T n1
      in and_then (set_col 0 cold_T n2) (\<lambda>n3. set_col (- 1) cold_T n3))"

definition step_heat_bands ::
  "real \<Rightarrow> real \<Rightarrow> real \<Rightarrow> int \<Rightarrow> int \<Rightarrow> grid \<Rightarrow> py_error + grid" where
  "step_heat_bands dt hot_T cold_T top_band bottom_band u_arr =
     reapply_bands hot_T cold_T top_band bottom_band
       (assign_interior u_arr (interior_values dt u_arr))"

section \<open>Running the stepper\<close>

text \<open>
  The loop of \<open>update\<close> in animate_heat.py, \<open>for _ in range(snap_every): u = step_heat(u)\<close>:
  a number of consecutive steps, stopped by the first exception.
\<close>

fun run_steps :: "(grid \<Rightarrow> py_error + grid) \<Rightarrow> nat \<Rightarrow> grid \<Rightarrow> py_error + grid" where
  "run_steps f 0 u = Inr u"
| "run_steps f (Suc n) u = and_then (f u) (run_steps f n)"

text \<open>
  The run of heat_pro_visualization.py: the snapshot list starts with the initial grid and
  gets the new grid after every step whose index is a multiple of \<open>snap_every\<close>
  (\<open>step % snap_every\<close> raises ZeroDivisionError when \<open>snap_every\<close> is 0).
\<close>

fun run_loop ::
  "(grid \<Rightarrow> py_error + grid) \<Rightarrow> nat \<Rightarrow> nat \<Rightarrow> nat \<Rightarrow> grid \<Rightarrow> grid list \<Rightarrow> py_error + grid list" where
  "run_loop f snap_every 0 step u snapshots = Inr snapshots"
| "run_loop f snap_every (Suc n) step u snapshots =
     and_then (f u) (\<lambda>u'.
       if snap_every = 0 then Inl ZeroDivisionError
       else run_loop f snap_every n (Suc step) u'
              (if step mod snap_every = 0 then snapshots @ [u'] else snapshots))"

definition simulate ::
  "real \<Rightarrow> real \<Rightarrow> real \<Rightarrow> int \<Rightarrow> int \<Rightarrow> nat \<Rightarrow> nat \<Rightarrow> grid \<Rightarrow> py_error + grid list" where
  "simulate dt hot_T cold_T top_band bottom_band steps_total snap_every u =
     run_loop (step_heat_bands dt hot_T cold_T top_band bottom_band) snap_every steps_total 0 u [u]"

section \<open>The block parser\<close>

text \<open>
  \<open>load_block\<close> is the same function in heat_pro_visualization.py, plot_heat.py,
  visualize_1d.py and visualize_ranks_overlay.py. A file is the list of its lines, a string
  a list of characters (ASCII). \<open>str.strip\<close> removes the white space of Python at both
  ends: the characters 9 to 13 and 28 to 32.
\<close>

definition isspace :: "char \<Rightarrow> bool" where
  "isspace c = (let n = (of_char c :: nat) in (9 \<le> n \<and> n \<le> 13) \<or> (28 \<le> n \<and> n \<le> 32))"

definition strip :: "string \<Rightarrow> string" where
  "strip s = rev (dropWhile isspace (rev (dropWhile isspace s)))"

text \<open>
  \<open>line.endswith(",")\<close> and \<open>line.split(",")\<close>: splitting keeps the empty fields, and
  the empty string splits into one empty field.
\<close>

definition endswith :: "string \<Rightarrow> char \<Rightarrow> bool" where
  "endswith s c = (s \<noteq> [] \<and> last s = c)"

fun str_split :: "char \<Rightarrow> string \<Rightarrow> string list" where
  "str_split sep [] = [[]]"
| "str_split sep (c # cs) =
     (if c = sep then [] # str_split sep cs
      else (case str_split sep cs of [] \<Rightarrow> [[c]] | w # ws \<Rightarrow> (c # w) # ws))"

text \<open>
  \<open>[float(p) for p in parts]\<close>. Python's \<open>float\<close> is a parameter: it returns the number a
  string denotes, or nothing where Python raises ValueError.
\<close>

fun floats :: "(string \<Rightarrow> real option) \<Rightarrow> string list \<Rightarrow> py_error + real list" where
  "floats float [] = Inr []"
| "floats float (p # ps) =
     (case float p of
        None \<Rightarrow> Inl ValueError
      | Some x \<Rightarrow> and_then (floats float ps) (\<lambda>xs. Inr (x # xs)))"

text \<open>
  The loop over the lines, with the list \<open>rows\<close> it appends to, and the final
  \<open>np.array(rows)\<close>. The array constructor is numpy's, not the repository's, and what it
  does with rows of unequal length depends on the numpy release (an array of row objects,
  or a ValueError), so it is a parameter too: \<open>load_block\<close> hands it the rows.
\<close>

fun load_rows ::
  "(string \<Rightarrow> real option) \<Rightarrow> string list \<Rightarrow> real list list \<Rightarrow> py_error + real list list" where
  "load_rows float [] rows = Inr rows"
| "load_rows float (line # f) rows =
     (let line = strip line in
      if line = [] then load_rows float f rows
      else
        let line = (if endswith line CHR '','' then butlast line else line);
            parts = filter (\<lambda>p. p \<noteq> []) (str_split CHR '','' line)
        in and_then (floats float parts) (\<lambda>row. load_rows float f (rows @ [row])))"

definition load_block ::
  "(real list list \<Rightarrow> py_error + 'a) \<Rightarrow> (string \<Rightarrow> real option) \<Rightarrow> string list \<Rightarrow> py_error + 'a" where
  "load_block np_array float f = and_then (load_rows float f []) np_array"

text \<open>
  For evaluation on concrete files: \<open>float\<close> on the strings of decimal digits, where it
  is the number written, and rectangularity of a list of rows. With \<open>Inr\<close> as the array
  constructor the rows are returned as they are.
\<close>

definition digit_value :: "char \<Rightarrow> nat option" where
  "digit_value c =
     (let n = (of_char c :: nat) in if 48 \<le> n \<and> n \<le> 57 then Some (n - 48) else None)"

fun digits_value :: "nat \<Rightarrow> string \<Rightarrow> nat option" where
  "digits_value acc [] = Some acc"
| "digits_value acc (c # cs) =
     (case digit_value c of None \<Rightarrow> None | Some d \<Rightarrow> digits_value (10 * acc + d) cs)"

definition float_digits :: "string \<Rightarrow> real option" where
  "float_digits s = (if s = [] then None else map_option real (digits_value 0 s))"

definition rectangular :: "real list list \<Rightarrow> bool" where
  "rectangular rows = list_all (\<lambda>r. length r = length (hd rows)) rows"

text \<open>
  \<open>np.array(rows)\<close> as numpy builds it since release 1.24: rows of one length make the
  array, rows of unequal length raise ValueError (the requested array has an inhomogeneous
  shape). Earlier releases made an array of row objects out of them.
\<close>

definition numpy_array :: "real list list \<Rightarrow> py_error + grid" where
  "numpy_array rows = (if rectangular rows then Inr rows else Inl ValueError)"

text \<open>
  The specification of the parser in its own words: a line is trimmed, a single trailing
  delimiter is stripped before splitting, the empty fields are dropped; blank lines give no
  row, and every remaining field is parsed as a number.
\<close>

definition spec_fields :: "string \<Rightarrow> string list" where
  "spec_fields line =
     (let trimmed = strip line;
          body = (if trimmed \<noteq> [] \<and> last trimmed = CHR '','' then butlast trimmed else trimmed)
      in filter (\<lambda>p. p \<noteq> []) (str_split CHR '','' body))"

definition spec_rows :: "(string \<Rightarrow> real option) \<Rightarrow> string list \<Rightarrow> real list list option" where
  "spec_rows float f =
     those (map (\<lambda>line. those (map float (spec_fields line)))
              (filter (\<lambda>line. strip line \<noteq> []) f))"

section \<open>Assembling the global grid\<close>

text \<open>
  \<open>np.hstack\<close> and \<open>np.vstack\<close> on two-dimensional arrays: concatenation along the
  column axis and along the row axis; they raise ValueError for an empty tuple and for
  arrays whose other dimension differs.
\<close>

definition hstack :: "grid list \<Rightarrow> py_error + grid" where
  "hstack tup =
     (case tup of
        [] \<Rightarrow> Inl ValueError
      | b # bs \<Rightarrow>
          if list_all (\<lambda>c. nrows c = nrows b) bs
          then Inr (map (\<lambda>i. concat (map (\<lambda>c. c ! i) (b # bs))) [0..<nrows b])
          else Inl ValueError)"

definition vstack :: "grid list \<Rightarrow> py_error + grid" where
  "vstack tup =
     (case tup of
        [] \<Rightarrow> Inl ValueError
      | b # bs \<Rightarrow>
          if list_all (\<lambda>c. ncols c = ncols b) bs then Inr (concat (b # bs))
          else Inl ValueError)"

text \<open>
  The 2 by 2 mesh of the scripts (\<open>full_grid\<close>, \<open>global_grid\<close>): ranks 0 and 1 form the
  top mesh row, ranks 2 and 3 the bottom one.
\<close>

definition full_grid :: "grid \<Rightarrow> grid \<Rightarrow> grid \<Rightarrow> grid \<Rightarrow> py_error + grid" where
  "full_grid b0 b1 b2 b3 =
     and_then (hstack [b0, b1]) (\<lambda>top_row.
     and_then (hstack [b2, b3]) (\<lambda>bottom_row.
     vstack [top_row, bottom_row]))"

text \<open>
  The specification of the Tiles assembly in its own words: each mesh row concatenates its
  blocks along the column axis in column order, and the mesh rows are concatenated along the
  row axis in row order.
\<close>

definition mesh_row_spec :: "grid list \<Rightarrow> grid" where
  "mesh_row_spec blocks =
     map (\<lambda>i. concat (map (\<lambda>b. b ! i) blocks)) [0..<nrows (hd blocks)]"

definition tiles_spec :: "grid list list \<Rightarrow> grid" where
  "tiles_spec mesh = concat (map mesh_row_spec mesh)"

text \<open>
  A valid mesh: \<open>rs\<close> gives the row count of each mesh row and \<open>cs\<close> the column count of
  each mesh column, every mesh row has one block per mesh column, of that shape, and no mesh
  row is of height zero.
\<close>

definition mesh_ok :: "nat list \<Rightarrow> nat list \<Rightarrow> grid list list \<Rightarrow> bool" where
  "mesh_ok rs cs mesh =
     (rs \<noteq> [] \<and> cs \<noteq> [] \<and> list_all (\<lambda>r. 0 < r) rs \<and>
      list_all2 (\<lambda>r blocks. list_all2 (\<lambda>c b. shaped r c b) cs blocks) rs mesh)"

section \<open>The CSV repair step\<close>

text \<open>
  The loop of fix_csv.py. \<open>np.genfromtxt\<close> is numpy's parser and a parameter, called with
  the delimiter \<open>","\<close> and \<open>filling_values=0.0\<close>. What it returns is two-dimensional only
  for a file of several rows and several columns: a file of one row or of one column, and an
  empty file, give a one-dimensional array, and a file of a single number an array of
  dimension zero.
\<close>

datatype ndarray = Arr0 real | Arr1 "real list" | Arr2 grid

text \<open>
  \<open>arr.shape[1]\<close> raises IndexError unless the array has two dimensions, and so does the
  slice \<open>arr[:, :100]\<close>, which keeps the first 100 entries of every row.
\<close>

definition shape1 :: "ndarray \<Rightarrow> py_error + nat" where
  "shape1 arr = (case arr of Arr2 a \<Rightarrow> Inr (ncols a) | _ \<Rightarrow> Inl IndexError)"

definition first_100_columns :: "ndarray \<Rightarrow> py_error + ndarray" where
  "first_100_columns arr =
     (case arr of Arr2 a \<Rightarrow> Inr (Arr2 (map (take 100) a)) | _ \<Rightarrow> Inl IndexError)"

text \<open>
  The loop over the files; \<open>saved\<close> collects the arrays passed to \<open>np.savetxt\<close>, and
  the first exception ends the run.
\<close>

fun fix_csv ::
  "('f \<Rightarrow> char \<Rightarrow> real \<Rightarrow> py_error + ndarray) \<Rightarrow> 'f list \<Rightarrow> ndarray list
     \<Rightarrow> py_error + ndarray list" where
  "fix_csv genfromtxt [] saved = Inr saved"
| "fix_csv genfromtxt (f # files) saved =
     and_then (genfromtxt f CHR '','' 0) (\<lambda>arr.
     and_then (shape1 arr) (\<lambda>columns.
     and_then (if columns = 101 then first_100_columns arr else Inr arr) (\<lambda>arr.
     fix_csv genfromtxt files (saved @ [arr]))))"

section \<open>Shapes and cells\<close>

lemma shaped_iff: "shaped NX NY u \<longleftrightarrow> length u = NX \<and> (\<forall>i<NX. length (u ! i) = NY)"
  by (auto simp: shaped_def list_all_length)

lemma shaped_length: "shaped NX NY u \<Longrightarrow> length u = NX"
  by (simp add: shaped_iff)

lemma shaped_row: "shaped NX NY u \<Longrightarrow> i < NX \<Longrightarrow> length (u ! i) = NY"
  by (simp add: shaped_iff)

lemma shaped_nrows: "shaped NX NY u \<Longrightarrow> nrows u = NX"
  by (simp add: shaped_iff nrows_def)

lemma shaped_ncols: "shaped NX NY u \<Longrightarrow> 0 < NX \<Longrightarrow> ncols u = NY"
  by (cases u) (auto simp: shaped_def ncols_def)

lemma inner_length: "length (inner xs) = length xs - 2"
  by (simp add: inner_def)

lemma inner_nth: "a < length xs - 2 \<Longrightarrow> inner xs ! a = xs ! Suc a"
  by (simp add: inner_def nth_butlast nth_tl)

lemma from2_length: "length (from2 xs) = length xs - 2"
  by (simp add: from2_def)

lemma from2_nth: "a < length xs - 2 \<Longrightarrow> from2 xs ! a = xs ! Suc (Suc a)"
  by (simp add: from2_def)

lemma upto2_length: "length (upto2 xs) = length xs - 2"
  by (simp add: upto2_def)

lemma upto2_nth: "a < length xs - 2 \<Longrightarrow> upto2 xs ! a = xs ! a"
  by (simp add: upto2_def)

lemma madd_shaped: "shaped n m a \<Longrightarrow> shaped n m b \<Longrightarrow> shaped n m (madd a b)"
  by (simp add: shaped_iff madd_def)

lemma msub_shaped: "shaped n m a \<Longrightarrow> shaped n m b \<Longrightarrow> shaped n m (msub a b)"
  by (simp add: shaped_iff msub_def)

lemma scale_shaped: "shaped n m a \<Longrightarrow> shaped n m (scale c a)"
  by (simp add: shaped_iff scale_def)

lemma madd_nth: "shaped n m a \<Longrightarrow> shaped n m b \<Longrightarrow> i < n \<Longrightarrow> j < m \<Longrightarrow>
  madd a b ! i ! j = a ! i ! j + b ! i ! j"
  by (simp add: shaped_iff madd_def)

lemma msub_nth: "shaped n m a \<Longrightarrow> shaped n m b \<Longrightarrow> i < n \<Longrightarrow> j < m \<Longrightarrow>
  msub a b ! i ! j = a ! i ! j - b ! i ! j"
  by (simp add: shaped_iff msub_def)

lemma scale_nth: "shaped n m a \<Longrightarrow> i < n \<Longrightarrow> j < m \<Longrightarrow> scale c a ! i ! j = c * a ! i ! j"
  by (simp add: shaped_iff scale_def)

lemma slice_shaped:
  assumes "shaped NX NY u"
  shows "shaped (NX - 2) (NY - 2) (map inner (inner u))"
    and "shaped (NX - 2) (NY - 2) (map inner (from2 u))"
    and "shaped (NX - 2) (NY - 2) (map inner (upto2 u))"
    and "shaped (NX - 2) (NY - 2) (map from2 (inner u))"
    and "shaped (NX - 2) (NY - 2) (map upto2 (inner u))"
  using assms
  by (simp_all add: shaped_iff inner_length inner_nth from2_length from2_nth
      upto2_length upto2_nth)

lemma slice_nth:
  assumes "shaped NX NY u" "a < NX - 2" "b < NY - 2"
  shows "map inner (inner u) ! a ! b = u ! Suc a ! Suc b"
    and "map inner (from2 u) ! a ! b = u ! Suc (Suc a) ! Suc b"
    and "map inner (upto2 u) ! a ! b = u ! a ! Suc b"
    and "map from2 (inner u) ! a ! b = u ! Suc a ! Suc (Suc b)"
    and "map upto2 (inner u) ! a ! b = u ! Suc a ! b"
  using assms
  by (simp_all add: shaped_iff inner_length inner_nth from2_length from2_nth
      upto2_length upto2_nth)

lemma interior_values_shaped:
  "shaped NX NY u \<Longrightarrow> shaped (NX - 2) (NY - 2) (interior_values dt u)"
  unfolding interior_values_def
  by (intro madd_shaped msub_shaped scale_shaped slice_shaped)

lemma interior_values_nth:
  assumes "shaped NX NY u" "a < NX - 2" "b < NY - 2"
  shows "interior_values dt u ! a ! b =
    u ! Suc a ! Suc b + dt * (u ! Suc (Suc a) ! Suc b + u ! a ! Suc b
      + u ! Suc a ! Suc (Suc b) + u ! Suc a ! b - 4 * u ! Suc a ! Suc b)"
proof -
  note sh = slice_shaped [OF assms(1)]
  note nt = slice_nth [OF assms]
  let ?n = "NX - 2" and ?m = "NY - 2"
  have 1: "shaped ?n ?m (madd (map inner (from2 u)) (map inner (upto2 u)))"
    by (intro madd_shaped sh)
  have 2: "shaped ?n ?m (madd (madd (map inner (from2 u)) (map inner (upto2 u)))
      (map from2 (inner u)))"
    by (intro madd_shaped sh)
  have 3: "shaped ?n ?m (madd (madd (madd (map inner (from2 u)) (map inner (upto2 u)))
      (map from2 (inner u))) (map upto2 (inner u)))"
    by (intro madd_shaped sh)
  have 4: "shaped ?n ?m (scale 4 (map inner (inner u)))"
    by (intro scale_shaped sh)
  have 5: "shaped ?n ?m (msub (madd (madd (madd (map inner (from2 u)) (map inner (upto2 u)))
      (map from2 (inner u))) (map upto2 (inner u))) (scale 4 (map inner (inner u))))"
    by (intro msub_shaped 3 4)
  have 6: "shaped ?n ?m (scale dt (msub (madd (madd (madd (map inner (from2 u))
      (map inner (upto2 u))) (map from2 (inner u))) (map upto2 (inner u)))
      (scale 4 (map inner (inner u)))))"
    by (intro scale_shaped 5)
  show ?thesis
    unfolding interior_values_def
    by (simp only: madd_nth [OF sh(1) 6 assms(2,3)] scale_nth [OF 5 assms(2,3)]
        msub_nth [OF 3 4 assms(2,3)] madd_nth [OF 2 sh(5) assms(2,3)]
        madd_nth [OF 1 sh(4) assms(2,3)] madd_nth [OF sh(2) sh(3) assms(2,3)]
        scale_nth [OF sh(1) assms(2,3)] nt)
qed

lemma put_inner_length: "length mid = length xs - 2 \<Longrightarrow> length (put_inner xs mid) = length xs"
  by (auto simp: put_inner_def)

lemma put_inner_nth:
  assumes "length mid = length xs - 2" "i < length xs"
  shows "put_inner xs mid ! i = (if 1 \<le> i \<and> Suc i < length xs then mid ! (i - 1) else xs ! i)"
proof (cases "length xs < 2")
  case True
  with assms show ?thesis by (auto simp: put_inner_def)
next
  case False
  then have ne: "xs \<noteq> []" by auto
  from False have eq: "put_inner xs mid = hd xs # mid @ [last xs]"
    by (simp add: put_inner_def)
  consider "i = 0" | "1 \<le> i" "Suc i < length xs" | "1 \<le> i" "Suc i = length xs"
    using assms(2) by linarith
  then show ?thesis
  proof cases
    case 1
    with ne show ?thesis by (simp add: eq hd_conv_nth)
  next
    case 2
    then obtain k where k: "i = Suc k" by (cases i) auto
    with 2 assms have "k < length mid" by linarith
    with 2 k show ?thesis by (simp add: eq nth_append)
  next
    case 3
    then obtain k where k: "i = Suc k" by (cases i) auto
    with 3 assms False have "k = length mid" by linarith
    moreover from 3 have "length xs - 1 = i" by linarith
    ultimately show ?thesis using 3 k ne by (simp add: eq last_conv_nth)
  qed
qed

lemma assign_interior_shaped:
  assumes "shaped NX NY new" "shaped (NX - 2) (NY - 2) vals"
  shows "shaped NX NY (assign_interior new vals)"
proof -
  let ?mid = "map2 put_inner (inner new) vals"
  from assms have len: "length ?mid = length new - 2"
    by (simp add: shaped_iff inner_length)
  have "length (assign_interior new vals ! i) = NY" if "i < NX" for i
  proof (cases "1 \<le> i \<and> Suc i < NX")
    case True
    with assms that have k: "i - 1 < length new - 2" "i - 1 < length vals" "Suc (i - 1) = i"
      by (auto simp: shaped_iff)
    then have "map2 put_inner (inner new) vals ! (i - 1) = put_inner (new ! i) (vals ! (i - 1))"
      by (simp add: inner_length inner_nth)
    with assms that True
    have "assign_interior new vals ! i = put_inner (new ! i) (vals ! (i - 1))"
      unfolding assign_interior_def
      by (simp add: put_inner_nth [OF len] shaped_iff)
    moreover from assms True have "length (vals ! (i - 1)) = length (new ! i) - 2"
      using k by (simp add: shaped_iff)
    ultimately show ?thesis
      using assms that by (simp add: put_inner_length shaped_iff)
  next
    case False
    with assms that have "assign_interior new vals ! i = new ! i"
      unfolding assign_interior_def
      by (auto simp: put_inner_nth [OF len] shaped_iff)
    with assms that show ?thesis by (simp add: shaped_iff)
  qed
  moreover from assms have "length (assign_interior new vals) = NX"
    unfolding assign_interior_def by (simp add: put_inner_length [OF len] shaped_iff)
  ultimately show ?thesis by (simp add: shaped_iff)
qed

lemma assign_interior_nth:
  assumes "shaped NX NY new" "shaped (NX - 2) (NY - 2) vals" "i < NX" "j < NY"
  shows "assign_interior new vals ! i ! j =
    (if 1 \<le> i \<and> Suc i < NX \<and> 1 \<le> j \<and> Suc j < NY then vals ! (i - 1) ! (j - 1) else new ! i ! j)"
proof -
  let ?mid = "map2 put_inner (inner new) vals"
  from assms have len: "length ?mid = length new - 2"
    by (simp add: shaped_iff inner_length)
  show ?thesis
  proof (cases "1 \<le> i \<and> Suc i < NX")
    case True
    with assms have k: "i - 1 < length new - 2" "i - 1 < length vals" "Suc (i - 1) = i"
      by (auto simp: shaped_iff)
    then have "map2 put_inner (inner new) vals ! (i - 1) = put_inner (new ! i) (vals ! (i - 1))"
      by (simp add: inner_length inner_nth)
    with assms True
    have "assign_interior new vals ! i = put_inner (new ! i) (vals ! (i - 1))"
      unfolding assign_interior_def
      by (simp add: put_inner_nth [OF len] shaped_iff)
    moreover from assms True have "length (vals ! (i - 1)) = length (new ! i) - 2"
      using k by (simp add: shaped_iff)
    moreover from assms have "length (new ! i) = NY" by (simp add: shaped_iff)
    ultimately show ?thesis
      using assms(4) True by (simp add: put_inner_nth)
  next
    case False
    with assms have "assign_interior new vals ! i = new ! i"
      unfolding assign_interior_def
      by (auto simp: put_inner_nth [OF len] shaped_iff)
    with False show ?thesis by auto
  qed
qed

section \<open>Cells after the boundary writes\<close>

lemma py_index_first: "0 < n \<Longrightarrow> py_index n 0 = Inr 0"
  by (simp add: py_index_def)

lemma py_index_last: "0 < n \<Longrightarrow> py_index n (- 1) = Inr (n - 1)"
  by (auto simp: py_index_def Let_def nat_diff_distrib')

lemma py_index_zero_axis: "py_index 0 i = Inl IndexError"
  by (simp add: py_index_def Let_def)

lemma set_row_cells:
  assumes "shaped NX NY a" "py_index NX i = Inr k"
  shows "\<exists>r. set_row i v a = Inr r \<and> shaped NX NY r \<and>
    (\<forall>x<NX. \<forall>y<NY. r ! x ! y = (if x = k then v else a ! x ! y))"
proof -
  from assms(2) have k: "k < NX"
    by (auto simp: py_index_def Let_def split: if_splits)
  let ?r = "a[k := map (\<lambda>_. v) (a ! k)]"
  from assms have "set_row i v a = Inr ?r"
    by (simp add: set_row_def shaped_nrows)
  moreover from assms(1) k have "shaped NX NY ?r"
    by (simp add: shaped_iff nth_list_update)
  moreover from assms(1) k have "\<forall>x<NX. \<forall>y<NY. ?r ! x ! y = (if x = k then v else a ! x ! y)"
    by (simp add: shaped_iff nth_list_update)
  ultimately show ?thesis by blast
qed

lemma set_col_cells:
  assumes "shaped NX NY a" "0 < NX" "py_index NY j = Inr k"
  shows "\<exists>r. set_col j v a = Inr r \<and> shaped NX NY r \<and>
    (\<forall>x<NX. \<forall>y<NY. r ! x ! y = (if y = k then v else a ! x ! y))"
proof -
  from assms(3) have k: "k < NY"
    by (auto simp: py_index_def Let_def split: if_splits)
  let ?r = "map (\<lambda>r. r[k := v]) a"
  from assms have "set_col j v a = Inr ?r"
    by (simp add: set_col_def shaped_ncols)
  moreover from assms(1) k have "shaped NX NY ?r"
    by (simp add: shaped_iff)
  moreover from assms(1) k have "\<forall>x<NX. \<forall>y<NY. ?r ! x ! y = (if y = k then v else a ! x ! y)"
    by (simp add: shaped_iff nth_list_update)
  ultimately show ?thesis by blast
qed

lemma set_rows_cells:
  assumes "shaped NX NY a"
  shows "shaped NX NY (set_rows lo hi v a)"
    and "x < NX \<Longrightarrow> y < NY \<Longrightarrow> set_rows lo hi v a ! x ! y =
      (if py_bound NX lo \<le> x \<and> x < (case hi of None \<Rightarrow> NX | Some b \<Rightarrow> py_bound NX b)
       then v else a ! x ! y)"
  using assms by (auto simp: set_rows_def shaped_iff nrows_def Let_def split: option.splits)

lemma reapply_boundaries_cells:
  assumes "shaped NX NY new" "0 < NX" "0 < NY"
  shows "\<exists>r. reapply_boundaries hot_T cold_T new = Inr r \<and> shaped NX NY r \<and>
    (\<forall>i<NX. \<forall>j<NY. r ! i ! j =
       (if j = 0 \<or> Suc j = NY then cold_T
        else if i = 0 \<or> Suc i = NX then hot_T else new ! i ! j))"
proof -
  from set_row_cells [OF assms(1) py_index_first [OF assms(2)]]
  obtain n1 where n1: "set_row 0 hot_T new = Inr n1" "shaped NX NY n1"
    "\<forall>x<NX. \<forall>y<NY. n1 ! x ! y = (if x = 0 then hot_T else new ! x ! y)"
    by blast
  from set_row_cells [OF n1(2) py_index_last [OF assms(2)]]
  obtain n2 where n2: "set_row (- 1) hot_T n1 = Inr n2" "shaped NX NY n2"
    "\<forall>x<NX. \<forall>y<NY. n2 ! x ! y = (if x = NX - 1 then hot_T else n1 ! x ! y)"
    by blast
  from set_col_cells [OF n2(2) assms(2) py_index_first [OF assms(3)]]
  obtain n3 where n3: "set_col 0 cold_T n2 = Inr n3" "shaped NX NY n3"
    "\<forall>x<NX. \<forall>y<NY. n3 ! x ! y = (if y = 0 then cold_T else n2 ! x ! y)"
    by blast
  from set_col_cells [OF n3(2) assms(2) py_index_last [OF assms(3)]]
  obtain n4 where n4: "set_col (- 1) cold_T n3 = Inr n4" "shaped NX NY n4"
    "\<forall>x<NX. \<forall>y<NY. n4 ! x ! y = (if y = NY - 1 then cold_T else n3 ! x ! y)"
    by blast
  have "reapply_boundaries hot_T cold_T new = Inr n4"
    by (simp add: reapply_boundaries_def and_then_def n1(1) n2(1) n3(1) n4(1))
  moreover have "n4 ! i ! j =
       (if j = 0 \<or> Suc j = NY then cold_T
        else if i = 0 \<or> Suc i = NX then hot_T else new ! i ! j)" if "i < NX" "j < NY" for i j
  proof -
    have "Suc j = NY \<longleftrightarrow> j = NY - 1" "Suc i = NX \<longleftrightarrow> i = NX - 1"
      using that by auto
    with that show ?thesis
      by (simp add: n1(3) n2(3) n3(3) n4(3))
  qed
  ultimately show ?thesis using n4(2) by blast
qed

lemma reapply_bands_cells:
  assumes "shaped NX NY new" "0 < NX" "0 < NY"
  shows "\<exists>r. reapply_bands hot_T cold_T top_band bottom_band new = Inr r \<and> shaped NX NY r \<and>
    (\<forall>i<NX. \<forall>j<NY. r ! i ! j =
       (if j = 0 \<or> Suc j = NY then cold_T
        else if i < py_bound NX top_band \<or> py_bound NX (- bottom_band) \<le> i then hot_T
        else new ! i ! j))"
proof -
  let ?n1 = "set_rows 0 (Some top_band) hot_T new"
  let ?n2 = "set_rows (- bottom_band) None hot_T ?n1"
  note s1 = set_rows_cells [OF assms(1), where lo = 0 and hi = "Some top_band" and v = hot_T]
  note s2 = set_rows_cells [OF s1(1), where lo = "- bottom_band" and hi = None and v = hot_T]
  from set_col_cells [OF s2(1) assms(2) py_index_first [OF assms(3)]]
  obtain n3 where n3: "set_col 0 cold_T ?n2 = Inr n3" "shaped NX NY n3"
    "\<forall>x<NX. \<forall>y<NY. n3 ! x ! y = (if y = 0 then cold_T else ?n2 ! x ! y)"
    by blast
  from set_col_cells [OF n3(2) assms(2) py_index_last [OF assms(3)]]
  obtain n4 where n4: "set_col (- 1) cold_T n3 = Inr n4" "shaped NX NY n4"
    "\<forall>x<NX. \<forall>y<NY. n4 ! x ! y = (if y = NY - 1 then cold_T else n3 ! x ! y)"
    by blast
  have "reapply_bands hot_T cold_T top_band bottom_band new = Inr n4"
    by (simp add: reapply_bands_def and_then_def Let_def n3(1) n4(1))
  moreover have "n4 ! i ! j =
       (if j = 0 \<or> Suc j = NY then cold_T
        else if i < py_bound NX top_band \<or> py_bound NX (- bottom_band) \<le> i then hot_T
        else new ! i ! j)" if "i < NX" "j < NY" for i j
  proof -
    have "Suc j = NY \<longleftrightarrow> j = NY - 1"
      using that by auto
    moreover have "py_bound NX 0 = 0" by (simp add: py_bound_def)
    ultimately show ?thesis using that
      by (simp add: n3(3) n4(3) s1(2) s2(2))
  qed
  ultimately show ?thesis using n4(2) by blast
qed

section \<open>Cells after one step\<close>

lemma step_heat_cells:
  assumes "shaped NX NY u" "0 < NX" "0 < NY"
  shows "\<exists>r. step_heat dt hot_T cold_T u = Inr r \<and> shaped NX NY r \<and>
    (\<forall>i<NX. \<forall>j<NY. r ! i ! j =
       (if j = 0 \<or> Suc j = NY then cold_T
        else if i = 0 \<or> Suc i = NX then hot_T
        else u ! i ! j + dt * (u ! Suc i ! j + u ! (i - 1) ! j + u ! i ! Suc j + u ! i ! (j - 1)
               - 4 * u ! i ! j)))"
proof -
  let ?new = "assign_interior u (interior_values dt u)"
  note iv = interior_values_shaped [OF assms(1), of dt]
  have sh: "shaped NX NY ?new"
    by (rule assign_interior_shaped [OF assms(1) iv])
  from reapply_boundaries_cells [OF sh assms(2,3), of hot_T cold_T]
  obtain r where r: "reapply_boundaries hot_T cold_T ?new = Inr r" "shaped NX NY r"
    "\<forall>i<NX. \<forall>j<NY. r ! i ! j =
       (if j = 0 \<or> Suc j = NY then cold_T
        else if i = 0 \<or> Suc i = NX then hot_T else ?new ! i ! j)"
    by blast
  have "r ! i ! j =
       (if j = 0 \<or> Suc j = NY then cold_T
        else if i = 0 \<or> Suc i = NX then hot_T
        else u ! i ! j + dt * (u ! Suc i ! j + u ! (i - 1) ! j + u ! i ! Suc j + u ! i ! (j - 1)
               - 4 * u ! i ! j))" if ij: "i < NX" "j < NY" for i j
  proof (cases "j = 0 \<or> Suc j = NY \<or> i = 0 \<or> Suc i = NX")
    case True
    with r(3) ij show ?thesis by auto
  next
    case False
    with ij obtain a b where ab: "i = Suc a" "j = Suc b" "a < NX - 2" "b < NY - 2"
      by (cases i; cases j) auto
    from False ij have "?new ! i ! j = interior_values dt u ! (i - 1) ! (j - 1)"
      by (simp add: assign_interior_nth [OF assms(1) iv ij] Suc_lessI)
    also have "\<dots> = u ! i ! j + dt * (u ! Suc i ! j + u ! (i - 1) ! j + u ! i ! Suc j
        + u ! i ! (j - 1) - 4 * u ! i ! j)"
      using interior_values_nth [OF assms(1) ab(3,4), of dt] ab by simp
    finally show ?thesis using r(3) ij False by simp
  qed
  with r(1,2) show ?thesis unfolding step_heat_def by blast
qed

lemma step_heat_bands_cells:
  assumes "shaped NX NY u" "0 < NX" "0 < NY"
  shows "\<exists>r. step_heat_bands dt hot_T cold_T top_band bottom_band u = Inr r \<and> shaped NX NY r \<and>
    (\<forall>i<NX. \<forall>j<NY. r ! i ! j =
       (if j = 0 \<or> Suc j = NY then cold_T
        else if i < py_bound NX top_band \<or> py_bound NX (- bottom_band) \<le> i then hot_T
        else if i = 0 \<or> Suc i = NX then u ! i ! j
        else u ! i ! j + dt * (u ! Suc i ! j + u ! (i - 1) ! j + u ! i ! Suc j + u ! i ! (j - 1)
               - 4 * u ! i ! j)))"
proof -
  let ?new = "assign_interior u (interior_values dt u)"
  note iv = interior_values_shaped [OF assms(1), of dt]
  have sh: "shaped NX NY ?new"
    by (rule assign_interior_shaped [OF assms(1) iv])
  from reapply_bands_cells [OF sh assms(2,3), of hot_T cold_T top_band bottom_band]
  obtain r where r: "reapply_bands hot_T cold_T top_band bottom_band ?new = Inr r"
    "shaped NX NY r"
    "\<forall>i<NX. \<forall>j<NY. r ! i ! j =
       (if j = 0 \<or> Suc j = NY then cold_T
        else if i < py_bound NX top_band \<or> py_bound NX (- bottom_band) \<le> i then hot_T
        else ?new ! i ! j)"
    by blast
  have "r ! i ! j =
       (if j = 0 \<or> Suc j = NY then cold_T
        else if i < py_bound NX top_band \<or> py_bound NX (- bottom_band) \<le> i then hot_T
        else if i = 0 \<or> Suc i = NX then u ! i ! j
        else u ! i ! j + dt * (u ! Suc i ! j + u ! (i - 1) ! j + u ! i ! Suc j + u ! i ! (j - 1)
               - 4 * u ! i ! j))" if ij: "i < NX" "j < NY" for i j
  proof (cases "j = 0 \<or> Suc j = NY \<or> i = 0 \<or> Suc i = NX")
    case True
    with r(3) ij show ?thesis
      by (auto simp: assign_interior_nth [OF assms(1) iv ij])
  next
    case False
    with ij obtain a b where ab: "i = Suc a" "j = Suc b" "a < NX - 2" "b < NY - 2"
      by (cases i; cases j) auto
    from False ij have "?new ! i ! j = interior_values dt u ! (i - 1) ! (j - 1)"
      by (simp add: assign_interior_nth [OF assms(1) iv ij] Suc_lessI)
    also have "\<dots> = u ! i ! j + dt * (u ! Suc i ! j + u ! (i - 1) ! j + u ! i ! Suc j
        + u ! i ! (j - 1) - 4 * u ! i ! j)"
      using interior_values_nth [OF assms(1) ab(3,4), of dt] ab by simp
    finally show ?thesis using r(3) ij False by simp
  qed
  with r(1,2) show ?thesis unfolding step_heat_bands_def by blast
qed

lemma shaped_eqI:
  assumes "shaped NX NY a" "shaped NX NY b" "\<And>i j. i < NX \<Longrightarrow> j < NY \<Longrightarrow> a ! i ! j = b ! i ! j"
  shows "a = b"
proof (rule nth_equalityI)
  from assms show "length a = length b" by (simp add: shaped_iff)
  fix i assume "i < length a"
  with assms(1) have i: "i < NX" by (simp add: shaped_iff)
  show "a ! i = b ! i"
  proof (rule nth_equalityI)
    from assms(1,2) i show "length (a ! i) = length (b ! i)" by (simp add: shaped_iff)
    fix j assume "j < length (a ! i)"
    with assms(1) i have "j < NY" by (simp add: shaped_iff)
    with i show "a ! i ! j = b ! i ! j" by (rule assms(3))
  qed
qed

text \<open>Unfolding everything evaluates a step on a concrete grid.\<close>

lemmas evals = step_heat_def step_heat_bands_def reapply_boundaries_def reapply_bands_def
  and_then_def set_row_def set_col_def set_rows_def py_index_def py_bound_def nrows_def ncols_def
  assign_interior_def interior_values_def put_inner_def inner_def from2_def upto2_def
  madd_def msub_def scale_def

section \<open>Consecutive steps\<close>

lemma run_steps_last: "run_steps f (Suc n) u = and_then (run_steps f n u) f"
proof (induction n arbitrary: u)
  case 0
  show ?case by (simp add: and_then_def split: sum.splits)
next
  case (Suc n)
  show ?case
  proof (cases "f u")
    case (Inl e)
    then show ?thesis by (simp add: and_then_def)
  next
    case (Inr v)
    with Suc [of v] show ?thesis by (simp add: and_then_def)
  qed
qed

lemma run_steps_shaped:
  assumes step: "\<And>v. shaped NX NY v \<Longrightarrow> \<exists>r. f v = Inr r \<and> shaped NX NY r"
    and "shaped NX NY u"
  shows "\<exists>r. run_steps f n u = Inr r \<and> shaped NX NY r"
  using assms(2)
proof (induction n arbitrary: u)
  case 0
  then show ?case by simp
next
  case (Suc n)
  from step [OF Suc.prems] obtain v where v: "f u = Inr v" "shaped NX NY v" by blast
  from Suc.IH [OF v(2)] v(1) show ?case by (simp add: and_then_def)
qed

lemma run_loop_returns:
  assumes step: "\<And>v. shaped NX NY v \<Longrightarrow> \<exists>r. f v = Inr r \<and> shaped NX NY r"
    and "shaped NX NY u" "0 < snap_every"
  shows "\<exists>snaps. run_loop f snap_every n k u snapshots = Inr snaps"
  using assms(2)
proof (induction n arbitrary: k u snapshots)
  case 0
  then show ?case by simp
next
  case (Suc n)
  from step [OF Suc.prems] obtain v where v: "f u = Inr v" "shaped NX NY v" by blast
  from Suc.IH [OF v(2)] v(1) assms(3) show ?case by (simp add: and_then_def)
qed

lemma step_heat_shaped:
  assumes "0 < NX" "0 < NY" "shaped NX NY v"
  shows "\<exists>r. step_heat dt hot_T cold_T v = Inr r \<and> shaped NX NY r"
  using step_heat_cells [OF assms(3,1,2), of dt hot_T cold_T] by blast

lemma step_heat_bands_shaped:
  assumes "0 < NX" "0 < NY" "shaped NX NY v"
  shows "\<exists>r. step_heat_bands dt hot_T cold_T top_band bottom_band v = Inr r \<and> shaped NX NY r"
  using step_heat_bands_cells [OF assms(3,1,2), of dt hot_T cold_T top_band bottom_band] by blast

section \<open>When the boundary writes raise\<close>

lemma reapply_boundaries_raises:
  assumes "shaped NX NY g" "NX = 0 \<or> NY = 0"
  shows "reapply_boundaries hot_T cold_T g = Inl IndexError"
proof (cases "NX = 0")
  case True
  with assms(1) have "g = []" by (simp add: shaped_iff)
  then show ?thesis by (simp add: evals)
next
  case False
  then have pos: "0 < NX" by simp
  with assms(2) have ny: "NY = 0" by simp
  from set_row_cells [OF assms(1) py_index_first [OF pos]]
  obtain n1 where n1: "set_row 0 hot_T g = Inr n1" "shaped NX NY n1" by blast
  from set_row_cells [OF n1(2) py_index_last [OF pos]]
  obtain n2 where n2: "set_row (- 1) hot_T n1 = Inr n2" "shaped NX NY n2" by blast
  from shaped_ncols [OF n2(2) pos] ny have "set_col 0 cold_T n2 = Inl IndexError"
    by (simp add: set_col_def py_index_zero_axis)
  with n1(1) n2(1) show ?thesis
    by (simp add: reapply_boundaries_def and_then_def)
qed

lemma reapply_bands_raises:
  assumes "shaped NX NY g" "NX = 0 \<or> NY = 0"
  shows "reapply_bands hot_T cold_T top_band bottom_band g = Inl IndexError"
proof -
  let ?n1 = "set_rows 0 (Some top_band) hot_T g"
  let ?n2 = "set_rows (- bottom_band) None hot_T ?n1"
  have sh: "shaped NX NY ?n2"
    by (intro set_rows_cells(1) assms(1))
  have "ncols ?n2 = 0"
  proof (cases "NX = 0")
    case True
    with sh have "?n2 = []" by (simp add: shaped_iff)
    then show ?thesis by (simp add: ncols_def)
  next
    case False
    with assms(2) shaped_ncols [OF sh] show ?thesis by simp
  qed
  then have "set_col 0 cold_T ?n2 = Inl IndexError"
    by (simp add: set_col_def py_index_zero_axis)
  then show ?thesis
    by (simp add: reapply_bands_def and_then_def Let_def)
qed

section \<open>The parser loop as a map over the non-blank lines\<close>

lemmas parse_evals = load_block_def and_then_def strip_def isspace_def endswith_def
  float_digits_def digit_value_def spec_rows_def spec_fields_def rectangular_def

lemma floats_those:
  "floats float parts = (case those (map float parts) of None \<Rightarrow> Inl ValueError | Some xs \<Rightarrow> Inr xs)"
  by (induction parts) (auto simp: and_then_def split: option.splits)

lemma spec_rows_Nil: "spec_rows float [] = Some []"
  by (simp add: spec_rows_def)

lemma spec_rows_Cons:
  "spec_rows float (line # f) =
     (if strip line = [] then spec_rows float f
      else case those (map float (spec_fields line)) of
             None \<Rightarrow> None
           | Some row \<Rightarrow> map_option ((#) row) (spec_rows float f))"
  by (simp add: spec_rows_def split: option.splits)

lemma load_rows_spec:
  "load_rows float f rows =
     (case spec_rows float f of None \<Rightarrow> Inl ValueError | Some rs \<Rightarrow> Inr (rows @ rs))"
proof (induction f arbitrary: rows)
  case Nil
  show ?case by (simp add: spec_rows_Nil)
next
  case (Cons line f)
  show ?case
  proof (cases "strip line = []")
    case True
    with Cons show ?thesis by (simp add: spec_rows_Cons)
  next
    case False
    have parts: "filter (\<lambda>p. p \<noteq> [])
        (str_split CHR '','' (if endswith (strip line) CHR '','' then butlast (strip line)
           else strip line)) = spec_fields line"
      using False by (simp add: spec_fields_def endswith_def Let_def)
    show ?thesis
    proof (cases "those (map float (spec_fields line))")
      case None
      with False parts show ?thesis
        by (simp add: spec_rows_Cons floats_those and_then_def Let_def)
    next
      case (Some row)
      with False parts Cons [of "rows @ [row]"] show ?thesis
        by (simp add: spec_rows_Cons floats_those and_then_def Let_def split: option.splits)
    qed
  qed
qed

lemma load_block_spec:
  "load_block np_array float f =
     (case spec_rows float f of None \<Rightarrow> Inl ValueError | Some rows \<Rightarrow> np_array rows)"
  by (simp add: load_block_def load_rows_spec and_then_def split: option.splits)

lemma spec_fields_nonempty: "[] \<notin> set (spec_fields line)"
  by (simp add: spec_fields_def Let_def)

lemma map_float_upd:
  "[] \<notin> set ps \<Longrightarrow> map (float([] := z)) ps = map float ps"
  by (induction ps) auto

lemma spec_rows_upd: "spec_rows (float([] := z)) f = spec_rows float f"
  unfolding spec_rows_def
  by (simp add: map_float_upd [OF spec_fields_nonempty])

lemma those_map_all2:
  "those (map g xs) = Some rs \<Longrightarrow> list_all2 (\<lambda>x r. g x = Some r) xs rs"
  by (induction xs arbitrary: rs) (auto split: option.splits)

lemma spec_rows_lengths:
  assumes "spec_rows float f = Some rows"
  shows "map length rows =
    map (\<lambda>line. length (spec_fields line)) (filter (\<lambda>line. strip line \<noteq> []) f)"
proof -
  let ?g = "\<lambda>line. those (map float (spec_fields line))"
  from assms have "list_all2 (\<lambda>x r. ?g x = Some r) (filter (\<lambda>line. strip line \<noteq> []) f) rows"
    unfolding spec_rows_def by (rule those_map_all2)
  then have "list_all2 (\<lambda>x r. length r = length (spec_fields x))
      (filter (\<lambda>line. strip line \<noteq> []) f) rows"
  proof (rule list_all2_mono)
    fix x r assume "?g x = Some r"
    then have "list_all2 (\<lambda>p v. float p = Some v) (spec_fields x) r"
      by (rule those_map_all2)
    then show "length r = length (spec_fields x)"
      by (simp add: list_all2_lengthD)
  qed
  then show ?thesis
    by (induction rule: list_all2_induct) auto
qed

lemma commas_only_split:
  "set t \<subseteq> {sep} \<Longrightarrow> filter (\<lambda>p. p \<noteq> []) (str_split sep t) = []"
  by (induction t) auto

lemma commas_only_fields:
  assumes "set (strip line) \<subseteq> {CHR '',''}"
  shows "spec_fields line = []"
proof -
  have "set (butlast (strip line)) \<subseteq> set (strip line)"
    by (auto dest: in_set_butlastD)
  with assms show ?thesis
    by (auto simp: spec_fields_def Let_def intro!: commas_only_split)
qed

lemma spec_rows_append:
  "spec_rows float (a @ b) =
     (case spec_rows float a of
        None \<Rightarrow> None
      | Some r1 \<Rightarrow> (case spec_rows float b of None \<Rightarrow> None | Some r2 \<Rightarrow> Some (r1 @ r2)))"
proof (induction a)
  case Nil
  show ?case by (simp add: spec_rows_Nil split: option.splits)
next
  case (Cons line a)
  then show ?case
    by (simp add: spec_rows_Cons split: option.splits)
qed

lemma ragged_with_empty_row:
  assumes "list_ex (\<lambda>r. r \<noteq> []) (rows1 @ rows2)"
  shows "\<not> rectangular (rows1 @ [] # rows2)"
proof
  assume r: "rectangular (rows1 @ [] # rows2)"
  let ?rows = "rows1 @ [] # rows2"
  from r have all: "\<And>x. x \<in> set ?rows \<Longrightarrow> length x = length (hd ?rows)"
    unfolding rectangular_def list_all_iff by blast
  have "[] \<in> set ?rows" by simp
  from all [OF this] have "length (hd ?rows) = 0" by simp
  with all have "\<And>x. x \<in> set ?rows \<Longrightarrow> x = []" by simp
  then have "\<And>x. x \<in> set (rows1 @ rows2) \<Longrightarrow> x = []" by simp
  with assms show False by (auto simp: list_ex_iff)
qed

lemma load_rows_iff: "load_rows float f [] = Inr rows \<longleftrightarrow> spec_rows float f = Some rows"
  by (simp add: load_rows_spec split: option.splits)

lemma numpy_array_returns: "numpy_array rows = Inr a \<longleftrightarrow> rectangular rows \<and> a = rows"
  by (auto simp: numpy_array_def)

lemmas array_evals = parse_evals numpy_array_def

section \<open>Stacking blocks\<close>

lemmas stack_evals = full_grid_def hstack_def vstack_def tiles_spec_def mesh_row_spec_def
  and_then_def nrows_def ncols_def

lemma hstack_pair:
  assumes "shaped r c0 a" "shaped r c1 b"
  shows "hstack [a, b] = Inr (map2 (@) a b)"
    and "shaped r (c0 + c1) (map2 (@) a b)"
    and "i < r \<Longrightarrow> j < c0 + c1 \<Longrightarrow>
      map2 (@) a b ! i ! j = (if j < c0 then a ! i ! j else b ! i ! (j - c0))"
proof -
  from assms have len: "length a = r" "length b = r"
    by (simp_all add: shaped_iff)
  have "map (\<lambda>i. concat (map (\<lambda>c. c ! i) [a, b])) [0..<r] = map2 (@) a b"
    by (rule nth_equalityI) (simp_all add: len)
  with len show "hstack [a, b] = Inr (map2 (@) a b)"
    by (simp add: hstack_def nrows_def)
  from assms show "shaped r (c0 + c1) (map2 (@) a b)"
    by (simp add: shaped_iff)
  from assms show "i < r \<Longrightarrow> j < c0 + c1 \<Longrightarrow>
      map2 (@) a b ! i ! j = (if j < c0 then a ! i ! j else b ! i ! (j - c0))"
    by (simp add: shaped_iff nth_append)
qed

lemma vstack_pair:
  assumes "shaped r0 c a" "shaped r1 c b" "0 < r0" "0 < r1"
  shows "vstack [a, b] = Inr (a @ b)"
    and "shaped (r0 + r1) c (a @ b)"
    and "i < r0 + r1 \<Longrightarrow> (a @ b) ! i = (if i < r0 then a ! i else b ! (i - r0))"
proof -
  from assms show "vstack [a, b] = Inr (a @ b)"
    by (simp add: vstack_def shaped_ncols)
  from assms show "shaped (r0 + r1) c (a @ b)"
    by (simp add: shaped_def)
  from assms show "i < r0 + r1 \<Longrightarrow> (a @ b) ! i = (if i < r0 then a ! i else b ! (i - r0))"
    by (simp add: shaped_iff nth_append)
qed

lemma mesh_row_spec_pair:
  assumes "shaped r c0 a" "shaped r c1 b"
  shows "mesh_row_spec [a, b] = map2 (@) a b"
proof -
  from assms have len: "length a = r" "length b = r"
    by (simp_all add: shaped_iff)
  show ?thesis
    unfolding mesh_row_spec_def
    by (rule nth_equalityI) (simp_all add: len nrows_def)
qed

lemma concat_row_length:
  assumes "list_all2 (\<lambda>c b. shaped r c b) cs blocks" "i < r"
  shows "length (concat (map (\<lambda>b. b ! i) blocks)) = sum_list cs"
  using assms(1)
proof (induction rule: list_all2_induct)
  case Nil
  show ?case by simp
next
  case (Cons c cs b blocks)
  with assms(2) show ?case by (simp add: shaped_iff)
qed

lemma hstack_mesh_row:
  assumes "list_all2 (\<lambda>c b. shaped r c b) cs blocks" "cs \<noteq> []"
  shows "hstack blocks = Inr (mesh_row_spec blocks)"
    and "shaped r (sum_list cs) (mesh_row_spec blocks)"
proof -
  from assms obtain b bs where blocks: "blocks = b # bs"
    by (cases blocks) auto
  from assms(1) have rows: "\<forall>c\<in>set blocks. nrows c = r"
    by (auto simp: list_all2_conv_all_nth in_set_conv_nth shaped_iff nrows_def)
  with blocks show "hstack blocks = Inr (mesh_row_spec blocks)"
    by (simp add: hstack_def mesh_row_spec_def list_all_iff)
  from rows blocks have "nrows (hd blocks) = r" by simp
  then show "shaped r (sum_list cs) (mesh_row_spec blocks)"
    by (simp add: shaped_iff mesh_row_spec_def concat_row_length [OF assms(1)])
qed

lemma vstack_mesh_rows:
  assumes "list_all2 (\<lambda>r g. shaped r C g) rs gs" "rs \<noteq> []" "list_all (\<lambda>r. 0 < r) rs"
  shows "vstack gs = Inr (concat gs)"
    and "shaped (sum_list rs) C (concat gs)"
proof -
  from assms(1,2) obtain g gs' where gs: "gs = g # gs'"
    by (cases gs) auto
  have "ncols x = C" if "x \<in> set gs" for x
  proof -
    from that obtain k where k: "k < length gs" "x = gs ! k"
      by (auto simp: in_set_conv_nth)
    with assms(1) have "shaped (rs ! k) C x" "k < length rs"
      by (auto simp: list_all2_conv_all_nth)
    moreover from this assms(3) have "0 < rs ! k"
      by (simp add: list_all_length)
    ultimately show ?thesis by (simp add: shaped_ncols)
  qed
  with gs show "vstack gs = Inr (concat gs)"
    by (simp add: vstack_def list_all_iff)
  from assms(1) show "shaped (sum_list rs) C (concat gs)"
    by (induction rule: list_all2_induct) (auto simp: shaped_def)
qed

lemma mesh_rows_stack:
  assumes "mesh_ok rs cs mesh"
  shows "list_all2 (\<lambda>blocks g. hstack blocks = Inr g) mesh (map mesh_row_spec mesh)"
    and "vstack (map mesh_row_spec mesh) = Inr (tiles_spec mesh)"
    and "shaped (sum_list rs) (sum_list cs) (tiles_spec mesh)"
proof -
  from assms have ok: "rs \<noteq> []" "cs \<noteq> []" "list_all (\<lambda>r. 0 < r) rs"
    "list_all2 (\<lambda>r blocks. list_all2 (\<lambda>c b. shaped r c b) cs blocks) rs mesh"
    by (simp_all add: mesh_ok_def)
  from ok(4) show "list_all2 (\<lambda>blocks g. hstack blocks = Inr g) mesh (map mesh_row_spec mesh)"
    by (auto simp: list_all2_conv_all_nth hstack_mesh_row(1) [OF _ ok(2)])
  from ok(4) have sh: "list_all2 (\<lambda>r g. shaped r (sum_list cs) g) rs (map mesh_row_spec mesh)"
    by (auto simp: list_all2_conv_all_nth hstack_mesh_row(2) [OF _ ok(2)])
  from vstack_mesh_rows [OF sh ok(1,3)]
  show "vstack (map mesh_row_spec mesh) = Inr (tiles_spec mesh)"
    and "shaped (sum_list rs) (sum_list cs) (tiles_spec mesh)"
    by (simp_all add: tiles_spec_def)
qed

lemma full_grid_mismatch_example:
  "full_grid [[1, 2], [3, 4]] [[5]] [[7, 8]] [[9]] = Inl ValueError"
  by (simp add: stack_evals)

lemma take_butlast_row: "length r = Suc n \<Longrightarrow> take n r = butlast r"
  by (simp add: butlast_conv_take)

section \<open>The repair loop on two-dimensional arrays\<close>

lemmas fix_evals = and_then_def shape1_def first_100_columns_def ncols_def

lemma fix_csv_append:
  "fix_csv genfromtxt (xs @ ys) saved =
     and_then (fix_csv genfromtxt xs saved) (fix_csv genfromtxt ys)"
proof (induction xs arbitrary: saved)
  case Nil
  show ?case by (simp add: and_then_def)
next
  case (Cons f xs)
  show ?case
    by (simp add: Cons and_then_def split: sum.splits)
qed

lemma take_100_rows:
  assumes "list_all (\<lambda>r. length r = ncols a) a" "ncols a = 101"
  shows "map (take 100) a = map butlast a"
proof (rule map_cong [OF refl])
  fix r assume "r \<in> set a"
  with assms have "length r = Suc 100"
    by (simp add: list_all_iff)
  then show "take 100 r = butlast r" by (rule take_butlast_row)
qed

lemma fix_csv_step:
  assumes "genfromtxt f CHR '','' 0 = Inr (Arr2 a)" "list_all (\<lambda>r. length r = ncols a) a"
  shows "fix_csv genfromtxt (f # files) saved =
    fix_csv genfromtxt files (saved @ [Arr2 (if ncols a = 101 then map butlast a else a)])"
proof (cases "ncols a = 101")
  case True
  have "fix_csv genfromtxt (f # files) saved =
      fix_csv genfromtxt files (saved @ [Arr2 (map (take 100) a)])"
    using assms(1) True by (simp add: and_then_def shape1_def first_100_columns_def)
  also have "map (take 100) a = map butlast a"
    by (rule take_100_rows [OF assms(2) True])
  finally show ?thesis using True by simp
next
  case False
  with assms(1) show ?thesis
    by (simp add: and_then_def shape1_def)
qed

lemma fix_csv_all:
  assumes "list_all2 (\<lambda>f a. genfromtxt f CHR '','' 0 = Inr (Arr2 a) \<and>
      list_all (\<lambda>r. length r = ncols a) a) files arrs"
  shows "fix_csv genfromtxt files saved =
    Inr (saved @ map (\<lambda>a. Arr2 (if ncols a = 101 then map butlast a else a)) arrs)"
  using assms
proof (induction arbitrary: saved rule: list_all2_induct)
  case Nil
  show ?case by simp
next
  case (Cons f fs a as)
  from Cons.hyps(1) have "fix_csv genfromtxt (f # fs) saved =
    fix_csv genfromtxt fs (saved @ [Arr2 (if ncols a = 101 then map butlast a else a)])"
    by (intro fix_csv_step) simp_all
  with Cons.IH show ?case by simp
qed

section \<open>The claims about the stepper\<close>

text \<open>
  C1 (as amended). On a grid of shape (NX, NY) with NX, NY \<ge> 3, one step writes into an
  interior cell (i, j) the value
  \<open>u[i,j] + dt * (u[i+1,j] + u[i-1,j] + u[i,j+1] + u[i,j-1] - 4*u[i,j])\<close>, every neighbour
  read from the grid before the step; the update has the factor \<open>dt\<close> alone, no diffusion
  coefficient. With the thick bands of heat_pro_visualization.py this holds for the interior
  cells outside the top and bottom band; an interior cell inside a band holds \<open>hot_T\<close>
  after the step.
\<close>

theorem step_heat_interior_cell:
  assumes "shaped NX NY u" "3 \<le> NX" "3 \<le> NY" "1 \<le> i" "i + 1 < NX" "1 \<le> j" "j + 1 < NY"
  shows "(\<exists>u'. step_heat dt hot_T cold_T u = Inr u' \<and>
            u' ! i ! j = u ! i ! j + dt * (u ! (i + 1) ! j + u ! (i - 1) ! j
                           + u ! i ! (j + 1) + u ! i ! (j - 1) - 4 * u ! i ! j)) \<and>
         (\<exists>u'. step_heat_bands dt hot_T cold_T top_band bottom_band u = Inr u' \<and>
            u' ! i ! j =
              (if i < py_bound NX top_band \<or> py_bound NX (- bottom_band) \<le> i then hot_T
               else u ! i ! j + dt * (u ! (i + 1) ! j + u ! (i - 1) ! j
                           + u ! i ! (j + 1) + u ! i ! (j - 1) - 4 * u ! i ! j)))"
proof -
  from assms have pos: "0 < NX" "0 < NY" and ij: "i < NX" "j < NY"
    and inside: "j \<noteq> 0" "Suc j \<noteq> NY" "i \<noteq> 0" "Suc i \<noteq> NX"
    by auto
  from step_heat_cells [OF assms(1) pos, of dt hot_T cold_T] ij inside
  have "\<exists>u'. step_heat dt hot_T cold_T u = Inr u' \<and>
            u' ! i ! j = u ! i ! j + dt * (u ! (i + 1) ! j + u ! (i - 1) ! j
                           + u ! i ! (j + 1) + u ! i ! (j - 1) - 4 * u ! i ! j)"
    by auto
  moreover
  from step_heat_bands_cells [OF assms(1) pos, of dt hot_T cold_T top_band bottom_band] ij inside
  have "\<exists>u'. step_heat_bands dt hot_T cold_T top_band bottom_band u = Inr u' \<and>
            u' ! i ! j =
              (if i < py_bound NX top_band \<or> py_bound NX (- bottom_band) \<le> i then hot_T
               else u ! i ! j + dt * (u ! (i + 1) ! j + u ! (i - 1) ! j
                           + u ! i ! (j + 1) + u ! i ! (j - 1) - 4 * u ! i ! j))"
    by auto
  ultimately show ?thesis by blast
qed

theorem step_heat_interior_cell_witness:
  "shaped 4 4 [[0, 0, 0, 0], [0, 5, 7, 0], [0, 1, 2, 0], [0, 0, 0, 0]] \<and>
   (\<exists>u'. step_heat (1 / 5) 100 0 [[0, 0, 0, 0], [0, 5, 7, 0], [0, 1, 2, 0], [0, 0, 0, 0]] = Inr u'
      \<and> u' ! 1 ! 2 = 14 / 5) \<and>
   (\<exists>u'. step_heat_bands (1 / 5) 100 0 1 1 [[0, 0, 0, 0], [0, 5, 7, 0], [0, 1, 2, 0], [0, 0, 0, 0]]
        = Inr u' \<and> u' ! 1 ! 2 = 14 / 5) \<and>
   (\<exists>u'. step_heat_bands (1 / 5) 100 0 2 1 [[0, 0, 0, 0], [0, 5, 7, 0], [0, 1, 2, 0], [0, 0, 0, 0]]
        = Inr u' \<and> u' ! 1 ! 2 = 100)"
proof -
  let ?u = "[[0, 0, 0, 0], [0, 5, 7, 0], [0, 1, 2, 0], [0, 0, 0, 0 :: real]]"
  have sh: "shaped 4 4 ?u" by (simp add: shaped_def)
  have b: "py_bound 4 1 = 1" "py_bound 4 (- 1) = 3" "py_bound 4 2 = 2"
    by (simp_all add: py_bound_def)
  from step_heat_interior_cell [OF sh, of 1 2 "1 / 5" 100 0 1 1]
    step_heat_interior_cell [OF sh, of 1 2 "1 / 5" 100 0 2 1]
  show ?thesis using sh b by simp
qed

text \<open>
  The claim as stated fails for the banded stepper: with the script's bands of 30 rows, the
  interior cell (1, 1) of a 3 by 3 grid holds 100 after the step, not the stencil value 5.
\<close>

theorem step_heat_interior_cell_counterexample:
  "step_heat_bands (3 / 20) 100 0 30 30 [[1, 2, 3], [4, 5, 6], [7, 8, 9]]
     = Inr [[0, 100, 0], [0, 100, 0], [0, 100, 0]] \<and>
   [[0, 100, 0], [0, 100, 0], [0, 100, 0 :: real]] ! 1 ! 1
     \<noteq> [[1, 2, 3], [4, 5, 6], [7, 8, 9]] ! 1 ! 1
        + 3 / 20 * ([[1, 2, 3], [4, 5, 6], [7, 8, 9]] ! (1 + 1) ! 1
                  + [[1, 2, 3], [4, 5, 6], [7, 8, 9]] ! (1 - 1) ! 1
                  + [[1, 2, 3], [4, 5, 6], [7, 8, 9]] ! 1 ! (1 + 1)
                  + [[1, 2, 3], [4, 5, 6], [7, 8, 9]] ! 1 ! (1 - 1)
                  - 4 * [[1, 2, 3], [4, 5, 6], [7, 8, 9]] ! 1 ! 1)"
  by (simp add: evals)

text \<open>
  C2 (as amended). After any number n \<ge> 1 of consecutive steps on a grid with at least one
  row and one column, every step returns, every cell of the first and of the last column
  holds \<open>cold_T\<close>, and every cell of the top and bottom edge (through the thickness of the
  band) outside those two columns holds \<open>hot_T\<close>, whatever the interior update computed.
\<close>

theorem fixed_edges_after_steps:
  assumes "shaped NX NY u" "0 < NX" "0 < NY" "1 \<le> n"
  shows "(\<exists>r. run_steps (step_heat dt hot_T cold_T) n u = Inr r \<and> shaped NX NY r \<and>
            (\<forall>i<NX. \<forall>j<NY.
               (j = 0 \<or> j + 1 = NY \<longrightarrow> r ! i ! j = cold_T) \<and>
               (j \<noteq> 0 \<and> j + 1 \<noteq> NY \<and> (i = 0 \<or> i + 1 = NX) \<longrightarrow> r ! i ! j = hot_T))) \<and>
         (\<exists>r. run_steps (step_heat_bands dt hot_T cold_T top_band bottom_band) n u = Inr r \<and>
            shaped NX NY r \<and>
            (\<forall>i<NX. \<forall>j<NY.
               (j = 0 \<or> j + 1 = NY \<longrightarrow> r ! i ! j = cold_T) \<and>
               (j \<noteq> 0 \<and> j + 1 \<noteq> NY \<and>
                (i < py_bound NX top_band \<or> py_bound NX (- bottom_band) \<le> i)
                  \<longrightarrow> r ! i ! j = hot_T)))"
proof -
  from assms(4) obtain m where n: "n = Suc m" by (cases n) auto
  let ?f = "step_heat dt hot_T cold_T"
  let ?g = "step_heat_bands dt hot_T cold_T top_band bottom_band"
  from run_steps_shaped [of NX NY ?f u m] step_heat_shaped [OF assms(2,3)] assms(1)
  obtain v where v: "run_steps ?f m u = Inr v" "shaped NX NY v" by blast
  from step_heat_cells [OF v(2) assms(2,3), of dt hot_T cold_T]
  obtain r where r: "?f v = Inr r" "shaped NX NY r"
    "\<forall>i<NX. \<forall>j<NY. r ! i ! j =
       (if j = 0 \<or> Suc j = NY then cold_T
        else if i = 0 \<or> Suc i = NX then hot_T
        else v ! i ! j + dt * (v ! Suc i ! j + v ! (i - 1) ! j + v ! i ! Suc j + v ! i ! (j - 1)
               - 4 * v ! i ! j))"
    by blast
  have "run_steps ?f n u = Inr r"
    unfolding n run_steps_last by (simp add: v(1) r(1) and_then_def)
  with r(2,3) have first: "\<exists>r. run_steps ?f n u = Inr r \<and> shaped NX NY r \<and>
            (\<forall>i<NX. \<forall>j<NY.
               (j = 0 \<or> j + 1 = NY \<longrightarrow> r ! i ! j = cold_T) \<and>
               (j \<noteq> 0 \<and> j + 1 \<noteq> NY \<and> (i = 0 \<or> i + 1 = NX) \<longrightarrow> r ! i ! j = hot_T))"
    by auto
  from run_steps_shaped [of NX NY ?g u m] step_heat_bands_shaped [OF assms(2,3)] assms(1)
  obtain w where w: "run_steps ?g m u = Inr w" "shaped NX NY w" by blast
  from step_heat_bands_cells [OF w(2) assms(2,3), of dt hot_T cold_T top_band bottom_band]
  obtain s where s: "?g w = Inr s" "shaped NX NY s"
    "\<forall>i<NX. \<forall>j<NY. s ! i ! j =
       (if j = 0 \<or> Suc j = NY then cold_T
        else if i < py_bound NX top_band \<or> py_bound NX (- bottom_band) \<le> i then hot_T
        else if i = 0 \<or> Suc i = NX then w ! i ! j
        else w ! i ! j + dt * (w ! Suc i ! j + w ! (i - 1) ! j + w ! i ! Suc j + w ! i ! (j - 1)
               - 4 * w ! i ! j))"
    by blast
  have "run_steps ?g n u = Inr s"
    unfolding n run_steps_last by (simp add: w(1) s(1) and_then_def)
  with s(2,3) have "\<exists>r. run_steps ?g n u = Inr r \<and> shaped NX NY r \<and>
            (\<forall>i<NX. \<forall>j<NY.
               (j = 0 \<or> j + 1 = NY \<longrightarrow> r ! i ! j = cold_T) \<and>
               (j \<noteq> 0 \<and> j + 1 \<noteq> NY \<and>
                (i < py_bound NX top_band \<or> py_bound NX (- bottom_band) \<le> i)
                  \<longrightarrow> r ! i ! j = hot_T))"
    by auto
  with first show ?thesis by blast
qed

theorem fixed_edges_after_steps_witness:
  "shaped 3 3 [[1, 2, 3], [4, 5, 6], [7, 8, 9]] \<and>
   (\<exists>r. run_steps (step_heat (1 / 5) 100 0) 2 [[1, 2, 3], [4, 5, 6], [7, 8, 9]] = Inr r \<and>
      r ! 0 ! 1 = 100 \<and> r ! 2 ! 1 = 100 \<and> r ! 1 ! 0 = 0 \<and> r ! 1 ! 2 = 0 \<and> r ! 0 ! 0 = 0) \<and>
   (\<exists>r. run_steps (step_heat_bands (1 / 5) 100 0 2 1) 2 [[1, 2, 3], [4, 5, 6], [7, 8, 9]] = Inr r \<and>
      r ! 0 ! 1 = 100 \<and> r ! 1 ! 1 = 100 \<and> r ! 2 ! 1 = 100 \<and> r ! 1 ! 0 = 0 \<and> r ! 1 ! 2 = 0)"
proof -
  let ?u = "[[1, 2, 3], [4, 5, 6], [7, 8, 9 :: real]]"
  have sh: "shaped 3 3 ?u" by (simp add: shaped_def)
  have b: "py_bound 3 2 = 2" "py_bound 3 (- 1) = 2"
    by (simp_all add: py_bound_def)
  have lt: "\<And>P. (\<forall>i<3::nat. P i) \<longleftrightarrow> P 0 \<and> P 1 \<and> P 2"
    by (auto simp: less_Suc_eq numeral_3_eq_3 numeral_2_eq_2)
  from fixed_edges_after_steps [OF sh, of 2 "1 / 5" 100 0 2 1]
  show ?thesis using sh by (simp add: b lt) blast
qed

text \<open>
  The claim as stated fails at the corners: the cell (0, 0) belongs to the top edge, whose
  fixed value is 100, and holds the value 0 of the left edge after the step.
\<close>

theorem fixed_edges_after_steps_counterexample:
  "run_steps (step_heat (1 / 5) 100 0) 1 [[0, 0, 0], [0, 0, 0], [0, 0, 0]]
     = Inr [[0, 100, 0], [0, 0, 0], [0, 100, 0]] \<and>
   [[0, 100, 0], [0, 0, 0], [0, 100, 0 :: real]] ! 0 ! 0 \<noteq> 100"
  by (simp add: evals)

text \<open>
  C7. The boundary rows and columns are written in the order top, bottom, left, right, so
  each of the four corner cells ends up with the value of the side written last there:
  \<open>cold_T\<close>, the value of the left and right edge, not \<open>hot_T\<close> of the top and bottom
  edge, which the other cells of the first and last row hold.
\<close>

theorem corners_take_side_value:
  assumes "shaped NX NY new" "0 < NX" "0 < NY"
  shows "(\<exists>r. reapply_boundaries hot_T cold_T new = Inr r \<and>
            r ! 0 ! 0 = cold_T \<and> r ! 0 ! (NY - 1) = cold_T \<and>
            r ! (NX - 1) ! 0 = cold_T \<and> r ! (NX - 1) ! (NY - 1) = cold_T \<and>
            (\<forall>j. 0 < j \<and> j + 1 < NY \<longrightarrow> r ! 0 ! j = hot_T \<and> r ! (NX - 1) ! j = hot_T)) \<and>
         (\<exists>r. reapply_bands hot_T cold_T top_band bottom_band new = Inr r \<and>
            r ! 0 ! 0 = cold_T \<and> r ! 0 ! (NY - 1) = cold_T \<and>
            r ! (NX - 1) ! 0 = cold_T \<and> r ! (NX - 1) ! (NY - 1) = cold_T)"
proof -
  from assms have idx: "0 < NX" "NX - 1 < NX" "0 < NY" "NY - 1 < NY" "Suc (NY - 1) = NY"
    "Suc (NX - 1) = NX"
    by auto
  from reapply_boundaries_cells [OF assms, of hot_T cold_T]
  obtain r where r: "reapply_boundaries hot_T cold_T new = Inr r"
    "\<forall>i<NX. \<forall>j<NY. r ! i ! j =
       (if j = 0 \<or> Suc j = NY then cold_T
        else if i = 0 \<or> Suc i = NX then hot_T else new ! i ! j)"
    by blast
  from r(2) idx have "r ! 0 ! 0 = cold_T" "r ! 0 ! (NY - 1) = cold_T"
    "r ! (NX - 1) ! 0 = cold_T" "r ! (NX - 1) ! (NY - 1) = cold_T"
    by simp_all
  moreover have "r ! 0 ! j = hot_T \<and> r ! (NX - 1) ! j = hot_T" if "0 < j \<and> j + 1 < NY" for j
  proof -
    from that have "j < NY" "j \<noteq> 0" "Suc j \<noteq> NY" by simp_all
    with r(2) idx show ?thesis by simp
  qed
  ultimately have "\<exists>r. reapply_boundaries hot_T cold_T new = Inr r \<and>
            r ! 0 ! 0 = cold_T \<and> r ! 0 ! (NY - 1) = cold_T \<and>
            r ! (NX - 1) ! 0 = cold_T \<and> r ! (NX - 1) ! (NY - 1) = cold_T \<and>
            (\<forall>j. 0 < j \<and> j + 1 < NY \<longrightarrow> r ! 0 ! j = hot_T \<and> r ! (NX - 1) ! j = hot_T)"
    using r(1) by blast
  moreover
  from reapply_bands_cells [OF assms, of hot_T cold_T top_band bottom_band] idx
  have "\<exists>r. reapply_bands hot_T cold_T top_band bottom_band new = Inr r \<and>
            r ! 0 ! 0 = cold_T \<and> r ! 0 ! (NY - 1) = cold_T \<and>
            r ! (NX - 1) ! 0 = cold_T \<and> r ! (NX - 1) ! (NY - 1) = cold_T"
    by auto
  ultimately show ?thesis by blast
qed

theorem corners_take_side_value_witness:
  "shaped 3 3 [[1, 2, 3], [4, 5, 6], [7, 8, 9]] \<and>
   reapply_boundaries 100 0 [[1, 2, 3], [4, 5, 6], [7, 8, 9]]
     = Inr [[0, 100, 0], [0, 5, 0], [0, 100, 0]] \<and>
   reapply_bands 100 0 1 1 [[1, 2, 3], [4, 5, 6], [7, 8, 9]]
     = Inr [[0, 100, 0], [0, 5, 0], [0, 100, 0]]"
proof -
  let ?u = "[[1, 2, 3], [4, 5, 6], [7, 8, 9 :: real]]"
  have sh: "shaped 3 3 ?u" by (simp add: shaped_def)
  from corners_take_side_value [OF sh, of 100 0 1 1]
  show ?thesis using sh by (simp add: evals)
qed

text \<open>
  C8. Re-applying the boundary values is idempotent: when the boundary writes succeed on a
  grid, writing them again into the result succeeds and changes nothing.
\<close>

theorem reapply_idempotent:
  assumes "shaped NX NY g"
  shows "(reapply_boundaries hot_T cold_T g = Inr r \<longrightarrow>
            reapply_boundaries hot_T cold_T r = Inr r) \<and>
         (reapply_bands hot_T cold_T top_band bottom_band g = Inr s \<longrightarrow>
            reapply_bands hot_T cold_T top_band bottom_band s = Inr s)"
proof (intro conjI impI)
  assume a: "reapply_boundaries hot_T cold_T g = Inr r"
  have "\<not> (NX = 0 \<or> NY = 0)"
  proof
    assume "NX = 0 \<or> NY = 0"
    from reapply_boundaries_raises [OF assms this, of hot_T cold_T] a show False by simp
  qed
  then have pos: "0 < NX" "0 < NY" by simp_all
  from reapply_boundaries_cells [OF assms pos, of hot_T cold_T] a
  have r: "shaped NX NY r"
    "\<forall>i<NX. \<forall>j<NY. r ! i ! j =
       (if j = 0 \<or> Suc j = NY then cold_T
        else if i = 0 \<or> Suc i = NX then hot_T else g ! i ! j)"
    by auto
  from reapply_boundaries_cells [OF r(1) pos, of hot_T cold_T]
  obtain r2 where r2: "reapply_boundaries hot_T cold_T r = Inr r2" "shaped NX NY r2"
    "\<forall>i<NX. \<forall>j<NY. r2 ! i ! j =
       (if j = 0 \<or> Suc j = NY then cold_T
        else if i = 0 \<or> Suc i = NX then hot_T else r ! i ! j)"
    by blast
  have "r2 = r"
    by (rule shaped_eqI [OF r2(2) r(1)]) (simp add: r(2) r2(3))
  with r2(1) show "reapply_boundaries hot_T cold_T r = Inr r" by simp
next
  assume a: "reapply_bands hot_T cold_T top_band bottom_band g = Inr s"
  have "\<not> (NX = 0 \<or> NY = 0)"
  proof
    assume "NX = 0 \<or> NY = 0"
    from reapply_bands_raises [OF assms this, of hot_T cold_T top_band bottom_band] a
    show False by simp
  qed
  then have pos: "0 < NX" "0 < NY" by simp_all
  from reapply_bands_cells [OF assms pos, of hot_T cold_T top_band bottom_band] a
  have s: "shaped NX NY s"
    "\<forall>i<NX. \<forall>j<NY. s ! i ! j =
       (if j = 0 \<or> Suc j = NY then cold_T
        else if i < py_bound NX top_band \<or> py_bound NX (- bottom_band) \<le> i then hot_T
        else g ! i ! j)"
    by auto
  from reapply_bands_cells [OF s(1) pos, of hot_T cold_T top_band bottom_band]
  obtain s2 where s2: "reapply_bands hot_T cold_T top_band bottom_band s = Inr s2"
    "shaped NX NY s2"
    "\<forall>i<NX. \<forall>j<NY. s2 ! i ! j =
       (if j = 0 \<or> Suc j = NY then cold_T
        else if i < py_bound NX top_band \<or> py_bound NX (- bottom_band) \<le> i then hot_T
        else s ! i ! j)"
    by blast
  have "s2 = s"
    by (rule shaped_eqI [OF s2(2) s(1)]) (simp add: s(2) s2(3))
  with s2(1) show "reapply_bands hot_T cold_T top_band bottom_band s = Inr s" by simp
qed

theorem reapply_idempotent_witness:
  "shaped 3 4 [[1, 2, 3, 4], [5, 6, 7, 8], [9, 10, 11, 12]] \<and>
   reapply_boundaries 100 0 [[1, 2, 3, 4], [5, 6, 7, 8], [9, 10, 11, 12]]
     = Inr [[0, 100, 100, 0], [0, 6, 7, 0], [0, 100, 100, 0]] \<and>
   reapply_boundaries 100 0 [[0, 100, 100, 0], [0, 6, 7, 0], [0, 100, 100, 0]]
     = Inr [[0, 100, 100, 0], [0, 6, 7, 0], [0, 100, 100, 0]] \<and>
   reapply_bands 100 0 2 0 [[1, 2, 3, 4], [5, 6, 7, 8], [9, 10, 11, 12]]
     = Inr [[0, 100, 100, 0], [0, 100, 100, 0], [0, 100, 100, 0]] \<and>
   reapply_bands 100 0 2 0 [[0, 100, 100, 0], [0, 100, 100, 0], [0, 100, 100, 0]]
     = Inr [[0, 100, 100, 0], [0, 100, 100, 0], [0, 100, 100, 0]]"
proof -
  let ?u = "[[1, 2, 3, 4], [5, 6, 7, 8], [9, 10, 11, 12 :: real]]"
  have sh: "shaped 3 4 ?u" by (simp add: shaped_def)
  have a: "reapply_boundaries 100 0 ?u = Inr [[0, 100, 100, 0], [0, 6, 7, 0], [0, 100, 100, 0]]"
    by (simp add: evals)
  have b: "reapply_bands 100 0 2 0 ?u
     = Inr [[0, 100, 100, 0], [0, 100, 100, 0], [0, 100, 100, 0]]"
    by (simp add: evals)
  from reapply_idempotent [OF sh, of 100 0 _ 2 0] a b
  show ?thesis using sh by simp
qed

text \<open>
  C3 (as amended). Neither stepper nor driver loop checks the stability bound: on a grid with
  at least one row and one column, a run returns normally whatever the time step \<open>dt\<close>
  is, so a run with 4 * dt = 1.05 completes exactly as a run with 4 * dt = 0.95 does.
\<close>

theorem run_has_no_stability_check:
  assumes "shaped NX NY u" "0 < NX" "0 < NY" "0 < snap_every"
  shows "(\<exists>snapshots. simulate dt hot_T cold_T top_band bottom_band steps_total snap_every u
            = Inr snapshots) \<and>
         (\<exists>r. run_steps (step_heat dt hot_T cold_T) n u = Inr r)"
proof -
  from run_loop_returns [of NX NY "step_heat_bands dt hot_T cold_T top_band bottom_band"
      u snap_every steps_total 0 "[u]"]
    step_heat_bands_shaped [OF assms(2,3)] assms(1,4)
  have "\<exists>snapshots. simulate dt hot_T cold_T top_band bottom_band steps_total snap_every u
            = Inr snapshots"
    unfolding simulate_def by blast
  moreover
  from run_steps_shaped [of NX NY "step_heat dt hot_T cold_T" u n]
    step_heat_shaped [OF assms(2,3)] assms(1)
  have "\<exists>r. run_steps (step_heat dt hot_T cold_T) n u = Inr r"
    by blast
  ultimately show ?thesis by blast
qed

theorem run_has_no_stability_check_witness:
  "shaped 3 3 [[0, 0, 0], [0, 80, 0], [0, 0, 0]] \<and>
   (\<exists>snapshots. simulate (19 / 80) 100 0 1 1 2 1 [[0, 0, 0], [0, 80, 0], [0, 0, 0]]
      = Inr snapshots) \<and>
   (\<exists>snapshots. simulate (21 / 80) 100 0 1 1 2 1 [[0, 0, 0], [0, 80, 0], [0, 0, 0]]
      = Inr snapshots) \<and>
   (\<exists>r. run_steps (step_heat (21 / 80) 100 0) 2 [[0, 0, 0], [0, 80, 0], [0, 0, 0]] = Inr r)"
proof -
  let ?u = "[[0, 0, 0], [0, 80, 0], [0, 0, 0 :: real]]"
  have sh: "shaped 3 3 ?u" by (simp add: shaped_def)
  from run_has_no_stability_check [OF sh, where snap_every = 1 and dt = "19 / 80"
      and hot_T = 100 and cold_T = 0 and top_band = 1 and bottom_band = 1
      and steps_total = 2 and n = 2]
    run_has_no_stability_check [OF sh, where snap_every = 1 and dt = "21 / 80"
      and hot_T = 100 and cold_T = 0 and top_band = 1 and bottom_band = 1
      and steps_total = 2 and n = 2]
  show ?thesis using sh by simp
qed

text \<open>
  The claim as stated fails: the run with dt = 21/80 (4 * dt = 1.05) returns its three
  snapshots and raises nothing, although the centre cell overshoots to -4 on the way.
\<close>

theorem run_has_no_stability_check_counterexample:
  "simulate (21 / 80) 100 0 1 1 2 1 [[0, 0, 0], [0, 80, 0], [0, 0, 0]]
     = Inr [[[0, 0, 0], [0, 80, 0], [0, 0, 0]],
            [[0, 100, 0], [0, - 4, 0], [0, 100, 0]],
            [[0, 100, 0], [0, 527 / 10, 0], [0, 100, 0]]]"
  by (simp add: simulate_def numeral_2_eq_2 evals)

section \<open>The claims about the parser\<close>

text \<open>
  C5. \<open>load_block\<close> trims every line, skips the line when nothing is left (it gives no
  row), strips a single trailing delimiter before splitting, drops every empty field after
  splitting and parses each remaining field as a number: the array constructor receives one
  row per non-blank line, the numbers of its non-empty fields, and the run raises ValueError
  exactly when some field does not parse. No empty field is ever parsed, as zero or as
  anything else: what \<open>float\<close> makes of the empty string does not matter.
\<close>

theorem load_block_parses_lines:
  "load_block np_array float f =
     (case spec_rows float f of None \<Rightarrow> Inl ValueError | Some rows \<Rightarrow> np_array rows) \<and>
   [] \<notin> set (spec_fields line) \<and>
   load_block np_array (float([] := z)) f = load_block np_array float f"
proof (intro conjI)
  have "load_rows float f [] =
      (case spec_rows float f of None \<Rightarrow> Inl ValueError | Some rows \<Rightarrow> Inr ([] @ rows))"
    by (rule load_rows_spec)
  then show "load_block np_array float f =
     (case spec_rows float f of None \<Rightarrow> Inl ValueError | Some rows \<Rightarrow> np_array rows)"
    by (simp add: load_block_def and_then_def split: option.splits)
next
  show "[] \<notin> set (spec_fields line)"
    by (simp add: spec_fields_def Let_def)
next
  have "spec_rows (float([] := z)) f = spec_rows float f"
    by (rule spec_rows_upd)
  then show "load_block np_array (float([] := z)) f = load_block np_array float f"
    by (simp add: load_block_spec)
qed

theorem load_block_parses_lines_witness:
  "load_block Inr float_digits
     [''1,2,3,'' @ [CHR 0x0A], [CHR 0x0A], ''  4,,5,6 '' @ [CHR 0x0A], ''   '', ''7,8,9'']
   = Inr [[1, 2, 3], [4, 5, 6], [7, 8, 9]]"
proof -
  let ?f = "[''1,2,3,'' @ [CHR 0x0A], [CHR 0x0A], ''  4,,5,6 '' @ [CHR 0x0A], ''   '', ''7,8,9'']"
  have "spec_rows float_digits ?f = Some [[1, 2, 3], [4, 5, 6], [7, 8, 9]]"
    by (simp add: parse_evals)
  with load_block_parses_lines [of Inr float_digits ?f] show ?thesis by simp
qed

text \<open>
  C4 (as amended). For every input whose parsed rows do not all have the same length, such as
  a row of 9 fields among rows of 10 (every row is as long as its line has non-empty fields),
  \<open>load_block\<close> fails and returns no grid: numpy's array constructor raises ValueError,
  the exception a non-numeric field raises too, for the code has no ShapeError. Whatever
  \<open>load_block\<close> returns is rectangular and is exactly the rows of the file, none cut short.
\<close>

theorem load_block_fails_on_ragged_rows:
  assumes "load_rows float f [] = Inr rows" "\<not> rectangular rows"
  shows "load_block numpy_array float f = Inl ValueError \<and>
         map length rows =
           map (\<lambda>line. length (spec_fields line)) (filter (\<lambda>line. strip line \<noteq> []) f) \<and>
         (\<forall>g a. load_block numpy_array float g = Inr a \<longrightarrow>
            load_rows float g [] = Inr a \<and> rectangular a)"
proof (intro conjI allI impI)
  from assms show "load_block numpy_array float f = Inl ValueError"
    by (simp add: load_block_def and_then_def numpy_array_def)
next
  from assms(1) have "spec_rows float f = Some rows"
    by (simp add: load_rows_iff)
  then show "map length rows =
      map (\<lambda>line. length (spec_fields line)) (filter (\<lambda>line. strip line \<noteq> []) f)"
    by (rule spec_rows_lengths)
next
  fix g a
  assume ret: "load_block numpy_array float g = Inr a"
  then obtain rs where rs: "load_rows float g [] = Inr rs" "numpy_array rs = Inr a"
    by (cases "load_rows float g []") (auto simp: load_block_def and_then_def)
  from rs(2) have "rectangular rs" "a = rs"
    by (simp_all add: numpy_array_returns)
  with rs(1) show "load_rows float g [] = Inr a" "rectangular a"
    by simp_all
qed

theorem load_block_fails_on_ragged_rows_witness:
  "load_rows float_digits [''1,2,3,4,5,6,7,8,9,10'', ''1,2,3,4,5,6,7,8,9''] []
     = Inr [[1, 2, 3, 4, 5, 6, 7, 8, 9, 10], [1, 2, 3, 4, 5, 6, 7, 8, 9]] \<and>
   \<not> rectangular [[1, 2, 3, 4, 5, 6, 7, 8, 9, 10], [1, 2, 3, 4, 5, 6, 7, 8, 9]] \<and>
   load_block numpy_array float_digits [''1,2,3,4,5,6,7,8,9,10'', ''1,2,3,4,5,6,7,8,9'']
     = Inl ValueError \<and>
   load_block numpy_array float_digits [''1,2,3'', ''4,5,6''] = Inr [[1, 2, 3], [4, 5, 6]] \<and>
   rectangular [[1, 2, 3], [4, 5, 6]]"
proof -
  let ?f = "[''1,2,3,4,5,6,7,8,9,10'', ''1,2,3,4,5,6,7,8,9'']"
  let ?rows = "[[1, 2, 3, 4, 5, 6, 7, 8, 9, 10], [1, 2, 3, 4, 5, 6, 7, 8, 9 :: real]]"
  have l: "load_rows float_digits ?f [] = Inr ?rows"
    by (simp add: parse_evals)
  have r: "\<not> rectangular ?rows"
    by (simp add: rectangular_def)
  have g: "load_block numpy_array float_digits [''1,2,3'', ''4,5,6''] = Inr [[1, 2, 3], [4, 5, 6]]"
    by (simp add: array_evals)
  note t = load_block_fails_on_ragged_rows [OF l r]
  from t have "load_block numpy_array float_digits ?f = Inl ValueError"
    by (rule conjunct1)
  moreover from t g have "rectangular [[1, 2, 3], [4, 5, 6]]"
    by blast
  ultimately show ?thesis using l r g by simp
qed

text \<open>
  The claim as stated fails in the error alone: the file with a row of 10 and a row of 9
  fields fails with ValueError, as the file with a non-numeric field does; no ShapeError sets
  the two failures apart.
\<close>

theorem load_block_fails_on_ragged_rows_counterexample:
  "load_block numpy_array float_digits [''1,2,3,4,5,6,7,8,9,10'', ''1,2,3,4,5,6,7,8,9'']
     = Inl ValueError \<and>
   load_block numpy_array float_digits [''1,2,3,4,5,6,7,8,9,10'', ''1,2,3,4,5,6,7,8,9,x'']
     = Inl ValueError"
  by (simp add: array_evals)

text \<open>
  C10 (as amended). A non-blank line made up of commas only is not skipped: it gives a row
  of length zero between the rows of the lines before and after it (when their fields
  parse), so there are as many rows as non-blank lines; and when some other row is not empty,
  the rows are not rectangular.
\<close>

theorem comma_line_gives_empty_row:
  assumes "strip line \<noteq> []" "set (strip line) \<subseteq> {CHR '',''}"
    "spec_rows float before = Some rows1" "spec_rows float after = Some rows2"
  shows "load_block np_array float (before @ line # after) = np_array (rows1 @ [] # rows2) \<and>
         length (rows1 @ [] # rows2)
           = length (filter (\<lambda>l. strip l \<noteq> []) (before @ line # after)) \<and>
         (list_ex (\<lambda>r. r \<noteq> []) (rows1 @ rows2) \<longrightarrow> \<not> rectangular (rows1 @ [] # rows2))"
proof -
  from assms(1) commas_only_fields [OF assms(2)] assms(4)
  have "spec_rows float (line # after) = Some ([] # rows2)"
    by (simp add: spec_rows_Cons)
  with assms(3) have all: "spec_rows float (before @ line # after) = Some (rows1 @ [] # rows2)"
    by (simp add: spec_rows_append)
  then have "load_block np_array float (before @ line # after) = np_array (rows1 @ [] # rows2)"
    by (simp add: load_block_spec)
  moreover from spec_rows_lengths [OF all]
  have "length (rows1 @ [] # rows2)
           = length (filter (\<lambda>l. strip l \<noteq> []) (before @ line # after))"
    by (metis length_map)
  ultimately show ?thesis
    using ragged_with_empty_row [of rows1 rows2] by blast
qed

theorem comma_line_gives_empty_row_witness:
  "strip '',,,'' \<noteq> [] \<and> spec_rows float_digits [''1,2''] = Some [[1, 2]] \<and>
   spec_rows float_digits [''    '', ''3,4''] = Some [[3, 4]] \<and>
   load_block Inr float_digits [''1,2'', '',,,'', ''    '', ''3,4''] = Inr [[1, 2], [], [3, 4]] \<and>
   \<not> rectangular [[1, 2], [], [3, 4]]"
proof -
  have a: "strip '',,,'' \<noteq> []" "set (strip '',,,'') \<subseteq> {CHR '',''}"
    by (simp_all add: parse_evals)
  have b: "spec_rows float_digits [''1,2''] = Some [[1, 2]]"
    by (simp add: parse_evals)
  have c: "spec_rows float_digits [''    '', ''3,4''] = Some [[3, 4]]"
    by (simp add: parse_evals)
  from comma_line_gives_empty_row [OF a b c, of Inr]
  have "load_block Inr float_digits ([''1,2''] @ '',,,'' # [''    '', ''3,4''])
      = Inr ([[1, 2]] @ [] # [[3, 4]])"
    by (rule conjunct1)
  with a b c show ?thesis by (simp add: rectangular_def)
qed

text \<open>
  The claim as stated fails where no other row has a field: for the one line \<open>",,,"\<close> the
  rows are the single empty row, a rectangular block of shape (1, 0).
\<close>

theorem comma_line_gives_empty_row_counterexample:
  "load_block Inr float_digits ['',,,''] = Inr [[]] \<and> rectangular [[]]"
  by (simp add: parse_evals)

section \<open>The claim about the assembly\<close>

text \<open>
  C6. On every valid mesh, \<open>np.hstack\<close> of each mesh row and \<open>np.vstack\<close> of the
  results, the two calls of the scripts, give the Tiles assembly: each mesh row concatenates
  its blocks along the column axis in column order, and the mesh rows are concatenated along
  the row axis in row order. \<open>full_grid\<close>, which the scripts write out for their 2 by 2
  mesh, is this assembly, with every cell of every block at its offset. On two 3 by 4 blocks of
  ones and of twos, the mesh Tiles(1, 2), the result is the 3 by 8 grid whose left half is 1
  and whose right half is 2.
\<close>

theorem tiles_assembly:
  assumes "mesh_ok rs cs mesh"
    and "shaped r0 c0 b0" "shaped r0 c1 b1" "shaped r1 c0 b2" "shaped r1 c1 b3"
    and "0 < r0" "0 < r1"
  shows "(\<exists>mesh_rows. list_all2 (\<lambda>blocks g. hstack blocks = Inr g) mesh mesh_rows \<and>
            vstack mesh_rows = Inr (tiles_spec mesh)) \<and>
         shaped (sum_list rs) (sum_list cs) (tiles_spec mesh) \<and>
         full_grid b0 b1 b2 b3 = Inr (tiles_spec [[b0, b1], [b2, b3]]) \<and>
         shaped (r0 + r1) (c0 + c1) (tiles_spec [[b0, b1], [b2, b3]]) \<and>
         (\<forall>i<r0 + r1. \<forall>j<c0 + c1.
            tiles_spec [[b0, b1], [b2, b3]] ! i ! j =
              (if i < r0 then (if j < c0 then b0 ! i ! j else b1 ! i ! (j - c0))
               else (if j < c0 then b2 ! (i - r0) ! j else b3 ! (i - r0) ! (j - c0)))) \<and>
         hstack [replicate 3 (replicate 4 1), replicate 3 (replicate 4 2)]
           = Inr (tiles_spec [[replicate 3 (replicate 4 1), replicate 3 (replicate 4 2)]]) \<and>
         tiles_spec [[replicate 3 (replicate 4 1), replicate 3 (replicate 4 2)]]
           = replicate 3 (replicate 4 1 @ replicate 4 2)"
proof -
  let ?top = "map2 (@) b0 b1" and ?bottom = "map2 (@) b2 b3"
  note t = hstack_pair [OF assms(2,3)] and b = hstack_pair [OF assms(4,5)]
  note v = vstack_pair [OF t(2) b(2) assms(6,7)]
  note general = mesh_rows_stack [OF assms(1)]
  have spec: "tiles_spec [[b0, b1], [b2, b3]] = ?top @ ?bottom"
    by (simp add: tiles_spec_def mesh_row_spec_pair [OF assms(2,3)]
        mesh_row_spec_pair [OF assms(4,5)])
  have "full_grid b0 b1 b2 b3 = Inr (?top @ ?bottom)"
    by (simp add: full_grid_def and_then_def t(1) b(1) v(1))
  moreover have "(?top @ ?bottom) ! i ! j =
              (if i < r0 then (if j < c0 then b0 ! i ! j else b1 ! i ! (j - c0))
               else (if j < c0 then b2 ! (i - r0) ! j else b3 ! (i - r0) ! (j - c0)))"
    if "i < r0 + r1" "j < c0 + c1" for i j
  proof (cases "i < r0")
    case True
    with that v(3) [of i] t(3) [of i j] show ?thesis by simp
  next
    case False
    with that have "i - r0 < r1" by simp
    with False that v(3) [of i] b(3) [of "i - r0" j] show ?thesis by simp
  qed
  moreover have "shaped 3 4 (replicate 3 (replicate 4 (1::real)))"
    "shaped 3 4 (replicate 3 (replicate 4 (2::real)))"
    by (simp_all add: shaped_iff)
  note ex = hstack_pair(1) [OF this] mesh_row_spec_pair [OF this]
  have "map2 (@) (replicate 3 (replicate 4 (1::real))) (replicate 3 (replicate 4 2))
      = replicate 3 (replicate 4 1 @ replicate 4 2)"
    by (rule nth_equalityI) simp_all
  with ex have "hstack [replicate 3 (replicate 4 1), replicate 3 (replicate 4 2)]
           = Inr (tiles_spec [[replicate 3 (replicate 4 1), replicate 3 (replicate 4 2)]])"
    "tiles_spec [[replicate 3 (replicate 4 1), replicate 3 (replicate 4 2)]]
           = replicate 3 (replicate 4 1 @ replicate 4 2)"
    by (simp_all add: tiles_spec_def)
  ultimately have "full_grid b0 b1 b2 b3 = Inr (tiles_spec [[b0, b1], [b2, b3]]) \<and>
         shaped (r0 + r1) (c0 + c1) (tiles_spec [[b0, b1], [b2, b3]]) \<and>
         (\<forall>i<r0 + r1. \<forall>j<c0 + c1.
            tiles_spec [[b0, b1], [b2, b3]] ! i ! j =
              (if i < r0 then (if j < c0 then b0 ! i ! j else b1 ! i ! (j - c0))
               else (if j < c0 then b2 ! (i - r0) ! j else b3 ! (i - r0) ! (j - c0)))) \<and>
         hstack [replicate 3 (replicate 4 1), replicate 3 (replicate 4 2)]
           = Inr (tiles_spec [[replicate 3 (replicate 4 1), replicate 3 (replicate 4 2)]]) \<and>
         tiles_spec [[replicate 3 (replicate 4 1), replicate 3 (replicate 4 2)]]
           = replicate 3 (replicate 4 1 @ replicate 4 2)"
    using v(2) spec by simp
  with general show ?thesis by blast
qed



theorem tiles_assembly_witness:
  "mesh_ok [3] [4, 4] [[replicate 3 (replicate 4 1), replicate 3 (replicate 4 2)]] \<and>
   vstack [replicate 3 (replicate 4 1 @ replicate 4 2)]
     = Inr (replicate 3 (replicate 4 1 @ replicate 4 2)) \<and>
   shaped 3 8 (replicate 3 (replicate 4 1 @ replicate 4 2)) \<and>
   shaped 2 2 [[1, 2], [3, 4]] \<and> shaped 2 1 [[5], [6]] \<and> shaped 1 2 [[7, 8]] \<and>
   shaped 1 1 [[9]] \<and>
   full_grid [[1, 2], [3, 4]] [[5], [6]] [[7, 8]] [[9]]
     = Inr [[1, 2, 5], [3, 4, 6], [7, 8, 9]] \<and>
   tiles_spec [[[[1, 2], [3, 4]], [[5], [6]]], [[[7, 8]], [[9]]]]
     = [[1, 2, 5], [3, 4, 6], [7, 8, 9]]"
proof -
  let ?mesh = "[[replicate 3 (replicate 4 (1::real)), replicate 3 (replicate 4 2)]]"
  have ok: "mesh_ok [3] [4, 4] ?mesh"
    by (simp add: mesh_ok_def shaped_def list_all_iff)
  have sh: "shaped 2 2 [[1, 2], [3, 4]]" "shaped 2 1 [[5], [6]]" "shaped 1 2 [[7, 8]]"
    "shaped 1 1 [[9]]"
    by (simp_all add: shaped_def)
  have spec: "tiles_spec [[[[1, 2], [3, 4]], [[5], [6]]], [[[7, 8]], [[9]]]]
     = [[1, 2, 5], [3, 4, 6], [7, 8, 9 :: real]]"
    by (simp add: stack_evals upt_rec)
  have pos: "(0::nat) < 2" "(0::nat) < 1" by simp_all
  note t = tiles_assembly [OF ok sh pos]
  note stacked = t [THEN conjunct1]
    and shape = t [THEN conjunct2, THEN conjunct1]
    and full = t [THEN conjunct2, THEN conjunct2, THEN conjunct1]
    and scenario = t [THEN conjunct2, THEN conjunct2, THEN conjunct2, THEN conjunct2,
      THEN conjunct2]
  from stacked obtain mesh_rows
    where mr: "list_all2 (\<lambda>blocks g. hstack blocks = Inr g) ?mesh mesh_rows"
      "vstack mesh_rows = Inr (tiles_spec ?mesh)"
    by blast
  from mr(1) scenario have "mesh_rows = [tiles_spec ?mesh]"
    by (auto simp: list_all2_Cons1)
  with mr(2) scenario have v: "vstack [replicate 3 (replicate 4 1 @ replicate 4 2)]
     = Inr (replicate 3 (replicate 4 1 @ replicate 4 2))"
    by simp
  from shape scenario have s8: "shaped 3 8 (replicate 3 (replicate 4 1 @ replicate 4 2))"
    by simp
  from full
  have "full_grid [[1, 2], [3, 4]] [[5], [6]] [[7, 8]] [[9]]
      = Inr (tiles_spec [[[[1, 2], [3, 4]], [[5], [6]]], [[[7, 8]], [[9]]]])"
    by simp
  with ok v s8 sh spec show ?thesis by simp
qed

section \<open>The claim about the repair step\<close>

text \<open>
  C9 (as amended). When \<open>genfromtxt\<close>, called with the delimiter \<open>","\<close> and the empty
  fields filled with 0.0, parses every file into a two-dimensional array, the arrays saved are,
  file by file, the parsed array without its last column when it has exactly 101 columns (the
  other 100 columns unchanged) and the parsed array itself for every other width. A file
  parsed into an array of one dimension or of none (a file of one row, of one column, or
  empty) raises IndexError at \<open>arr.shape[1]\<close>, and an exception of \<open>genfromtxt\<close> ends the
  run as well: that file and the files after it are not saved.
\<close>

theorem fix_csv_drops_101st_column:
  assumes "list_all2 (\<lambda>f a. genfromtxt f CHR '','' 0 = Inr (Arr2 a) \<and>
      list_all (\<lambda>r. length r = ncols a) a) files arrs"
  shows "fix_csv genfromtxt files [] =
           Inr (map (\<lambda>a. Arr2 (if ncols a = 101 then map butlast a else a)) arrs) \<and>
         (\<forall>a\<in>set arrs. ncols a = 101 \<longrightarrow>
            list_all (\<lambda>r. length r = 100) (map butlast a) \<and>
            (\<forall>i<length a. \<forall>j<100. map butlast a ! i ! j = a ! i ! j)) \<and>
         (\<forall>f rest v. genfromtxt f CHR '','' 0 = Inr (Arr1 v) \<longrightarrow>
            fix_csv genfromtxt (files @ f # rest) [] = Inl IndexError) \<and>
         (\<forall>f rest x. genfromtxt f CHR '','' 0 = Inr (Arr0 x) \<longrightarrow>
            fix_csv genfromtxt (files @ f # rest) [] = Inl IndexError) \<and>
         (\<forall>f rest e. genfromtxt f CHR '','' 0 = Inl e \<longrightarrow>
            fix_csv genfromtxt (files @ f # rest) [] = Inl e)"
proof (intro conjI ballI allI impI)
  from fix_csv_all [where genfromtxt = genfromtxt and files = files and arrs = arrs
      and saved = "[]", OF assms]
  show all: "fix_csv genfromtxt files [] =
           Inr (map (\<lambda>a. Arr2 (if ncols a = 101 then map butlast a else a)) arrs)"
    by simp
  {
    fix f rest v
    assume "genfromtxt f CHR '','' 0 = Inr (Arr1 v)"
    then have "fix_csv genfromtxt (f # rest) s = Inl IndexError" for s
      by (simp add: and_then_def shape1_def)
    then show "fix_csv genfromtxt (files @ f # rest) [] = Inl IndexError"
      by (simp add: fix_csv_append all and_then_def)
  }
  {
    fix f rest x
    assume "genfromtxt f CHR '','' 0 = Inr (Arr0 x)"
    then have "fix_csv genfromtxt (f # rest) s = Inl IndexError" for s
      by (simp add: and_then_def shape1_def)
    then show "fix_csv genfromtxt (files @ f # rest) [] = Inl IndexError"
      by (simp add: fix_csv_append all and_then_def)
  }
  {
    fix f rest e
    assume "genfromtxt f CHR '','' 0 = Inl e"
    then have "fix_csv genfromtxt (f # rest) s = Inl e" for s
      by (simp add: and_then_def)
    then show "fix_csv genfromtxt (files @ f # rest) [] = Inl e"
      by (simp add: fix_csv_append all and_then_def)
  }
next
  fix a assume a: "a \<in> set arrs" "ncols a = 101"
  from a(1) assms have rows: "list_all (\<lambda>r. length r = ncols a) a"
    by (auto simp: list_all2_conv_all_nth in_set_conv_nth)
  with a(2) show "list_all (\<lambda>r. length r = 100) (map butlast a)"
    by (simp add: list_all_iff)
  fix i j assume "i < length a" "j < (100::nat)"
  with rows a(2) show "map butlast a ! i ! j = a ! i ! j"
    by (simp add: list_all_length nth_butlast)
qed

theorem fix_csv_drops_101st_column_witness:
  "fix_csv
     (\<lambda>f delimiter filling_values.
        if f = ''output_rank_0.csv''
        then Inr (Arr2 (replicate 2 (replicate 100 1 @ [filling_values])))
        else if f = ''output_rank_1.csv''
        then Inr (Arr2 [[1, 2, filling_values], [4, 5, filling_values]])
        else Inr (Arr1 [1, 2, filling_values]))
     [''output_rank_0.csv'', ''output_rank_1.csv''] []
     = Inr [Arr2 (replicate 2 (replicate 100 1)), Arr2 [[1, 2, 0], [4, 5, 0]]] \<and>
   fix_csv
     (\<lambda>f delimiter filling_values.
        if f = ''output_rank_0.csv''
        then Inr (Arr2 (replicate 2 (replicate 100 1 @ [filling_values])))
        else if f = ''output_rank_1.csv''
        then Inr (Arr2 [[1, 2, filling_values], [4, 5, filling_values]])
        else Inr (Arr1 [1, 2, filling_values]))
     [''output_rank_0.csv'', ''output_rank_1.csv'', ''output_rank_2.csv'', ''output_rank_3.csv''] []
     = Inl IndexError"
proof -
  let ?gf = "\<lambda>(f :: string) (delimiter :: char) (filling_values :: real).
        if f = ''output_rank_0.csv''
        then Inr (Arr2 (replicate 2 (replicate 100 1 @ [filling_values])))
        else if f = ''output_rank_1.csv''
        then Inr (Arr2 [[1, 2, filling_values], [4, 5, filling_values]])
        else (Inr (Arr1 [1, 2, filling_values]) :: py_error + ndarray)"
  let ?files = "[''output_rank_0.csv'', ''output_rank_1.csv'']"
  let ?arrs = "[replicate 2 (replicate 100 1 @ [0]), [[1, 2, 0], [4, 5, 0 :: real]]]"
  have hyp: "list_all2 (\<lambda>f a. ?gf f CHR '','' 0 = Inr (Arr2 a) \<and>
      list_all (\<lambda>r. length r = ncols a) a) ?files ?arrs"
    by (simp add: ncols_def numeral_2_eq_2)
  note t = fix_csv_drops_101st_column [where genfromtxt = ?gf and files = ?files
      and arrs = ?arrs, OF hyp]
  from t have "fix_csv ?gf ?files [] =
      Inr (map (\<lambda>a. Arr2 (if ncols a = 101 then map butlast a else a)) ?arrs)"
    by (rule conjunct1)
  then have a: "fix_csv ?gf ?files []
      = Inr [Arr2 (replicate 2 (replicate 100 1)), Arr2 [[1, 2, 0], [4, 5, 0]]]"
    by (simp add: ncols_def numeral_2_eq_2)
  from t have "\<forall>f rest v. ?gf f CHR '','' 0 = Inr (Arr1 v) \<longrightarrow>
            fix_csv ?gf (?files @ f # rest) [] = Inl IndexError"
    by (rule conjunct2 [THEN conjunct2, THEN conjunct1])
  then have "?gf ''output_rank_2.csv'' CHR '','' 0 = Inr (Arr1 [1, 2, 0]) \<longrightarrow>
      fix_csv ?gf (?files @ ''output_rank_2.csv'' # [''output_rank_3.csv'']) [] = Inl IndexError"
    by blast
  then have b: "fix_csv ?gf
      [''output_rank_0.csv'', ''output_rank_1.csv'', ''output_rank_2.csv'', ''output_rank_3.csv'']
      [] = Inl IndexError"
    by simp
  from a b show ?thesis by simp
qed

text \<open>
  The claim as stated fails for the widths of one-dimensional arrays: the array of width 3
  that numpy makes of the one-row file \<open>"1,2,"\<close> is not written back, the run raises
  IndexError.
\<close>

theorem fix_csv_drops_101st_column_counterexample:
  "fix_csv (\<lambda>f delimiter filling_values. Inr (Arr1 [1, 2, filling_values]))
     [''output_rank_0.csv''] [] = Inl IndexError"
  by (simp add: fix_evals)

end
